theory Spec2Isabelle
  imports Complex_Main
begin

section \<open>Numeric values of the notebook\<close>

text \<open>
  Every number the notebook handles is a 64-bit float: a Python \<open>float\<close> for the
  parameters \<open>K\<close>, \<open>Q\<close>, \<open>b0\<close> typed into the parameter cell, a numpy \<open>float64\<close> for
  everything read by \<open>np.loadtxt\<close> or computed from it. A value is a finite number, one
  of the two infinities, or not-a-number. The sign of zero is not represented: a zero
  divisor is taken to be \<open>+0\<close>.

  The notebook is read in two ways. In the first, the operations \<open>np_add\<close>, \<open>np_mul\<close>,
  \<open>np_div\<close>, \<open>np_log\<close>, \<open>np_sqrt\<close>, \<open>np_power\<close> of this section compute on finite
  values with the exact arithmetic of the real numbers: this is the reading of the
  formulas of the notebook as mathematics, and \<open>Theim\<close> below is the Theim solution
  under it. In the second, the operations \<open>f64_add\<close>, ... of the section on float64
  arithmetic round every finite result to the nearest float64, overflow to an infinity
  and underflow to zero, and \<open>Theim_f64\<close> is the same function under them. Both agree on
  the special values.
\<close>

datatype npfloat = Fin real | PInf | NInf | NaN

datatype py_error = ZeroDivisionError | IndexError | ValueError

fun np_neg :: "npfloat \<Rightarrow> npfloat" where
  "np_neg (Fin a) = Fin (- a)"
| "np_neg PInf = NInf"
| "np_neg NInf = PInf"
| "np_neg NaN = NaN"

fun np_add :: "npfloat \<Rightarrow> npfloat \<Rightarrow> npfloat" where
  "np_add NaN y = NaN"
| "np_add x NaN = NaN"
| "np_add (Fin a) (Fin b) = Fin (a + b)"
| "np_add (Fin a) PInf = PInf"
| "np_add (Fin a) NInf = NInf"
| "np_add PInf (Fin b) = PInf"
| "np_add PInf PInf = PInf"
| "np_add PInf NInf = NaN"
| "np_add NInf (Fin b) = NInf"
| "np_add NInf PInf = NaN"
| "np_add NInf NInf = NInf"

fun np_mul :: "npfloat \<Rightarrow> npfloat \<Rightarrow> npfloat" where
  "np_mul NaN y = NaN"
| "np_mul x NaN = NaN"
| "np_mul (Fin a) (Fin b) = Fin (a * b)"
| "np_mul (Fin a) PInf = (if 0 < a then PInf else if a < 0 then NInf else NaN)"
| "np_mul (Fin a) NInf = (if 0 < a then NInf else if a < 0 then PInf else NaN)"
| "np_mul PInf (Fin b) = (if 0 < b then PInf else if b < 0 then NInf else NaN)"
| "np_mul NInf (Fin b) = (if 0 < b then NInf else if b < 0 then PInf else NaN)"
| "np_mul PInf PInf = PInf"
| "np_mul PInf NInf = NInf"
| "np_mul NInf PInf = NInf"
| "np_mul NInf NInf = PInf"

text \<open>
  numpy's division does not raise on a zero divisor: it gives an infinity of the sign of
  the dividend, and not-a-number for \<open>0/0\<close>.
\<close>

fun np_div :: "npfloat \<Rightarrow> npfloat \<Rightarrow> npfloat" where
  "np_div NaN y = NaN"
| "np_div x NaN = NaN"
| "np_div (Fin a) (Fin b) =
     (if b \<noteq> 0 then Fin (a / b)
      else if 0 < a then PInf else if a < 0 then NInf else NaN)"
| "np_div (Fin a) PInf = Fin 0"
| "np_div (Fin a) NInf = Fin 0"
| "np_div PInf (Fin b) = (if 0 \<le> b then PInf else NInf)"
| "np_div NInf (Fin b) = (if 0 \<le> b then NInf else PInf)"
| "np_div PInf PInf = NaN"
| "np_div PInf NInf = NaN"
| "np_div NInf PInf = NaN"
| "np_div NInf NInf = NaN"

text \<open>
  Python's own \<open>/\<close> on two Python numbers raises \<open>ZeroDivisionError\<close> on a zero divisor
  and is the float division otherwise.
\<close>

definition py_truediv :: "npfloat \<Rightarrow> npfloat \<Rightarrow> py_error + npfloat" where
  "py_truediv a b = (if b = Fin 0 then Inl ZeroDivisionError else Inr (np_div a b))"

text \<open>\<open>np.log\<close>: the natural logarithm; \<open>-inf\<close> at zero, not-a-number below zero.\<close>

fun np_log :: "npfloat \<Rightarrow> npfloat" where
  "np_log (Fin x) = (if 0 < x then Fin (ln x) else if x = 0 then NInf else NaN)"
| "np_log PInf = PInf"
| "np_log NInf = NaN"
| "np_log NaN = NaN"

text \<open>\<open>np.sqrt\<close>: not-a-number below zero, with a warning and no exception.\<close>

fun np_sqrt :: "npfloat \<Rightarrow> npfloat" where
  "np_sqrt (Fin x) = (if x < 0 then NaN else Fin (sqrt x))"
| "np_sqrt PInf = PInf"
| "np_sqrt NInf = NaN"
| "np_sqrt NaN = NaN"

text \<open>\<open>x**n\<close> for a float \<open>x\<close> and a literal natural exponent.\<close>

fun np_power :: "npfloat \<Rightarrow> nat \<Rightarrow> npfloat" where
  "np_power (Fin a) n = Fin (a ^ n)"
| "np_power PInf n = (if n = 0 then Fin 1 else PInf)"
| "np_power NInf n = (if n = 0 then Fin 1 else if even n then PInf else NInf)"
| "np_power NaN n = (if n = 0 then Fin 1 else NaN)"

section \<open>The Theim solution\<close>

text \<open>
  \<^verbatim>\<open>
  def Theim(r,r1,b1,Q,K):
      LHS=Q/np.pi/K*np.log(r/r1)
      b=np.sqrt(LHS+b1**2)
      return b
  \<close>
  The notebook calls it with \<open>Q\<close> and \<open>K\<close> Python numbers (\<open>np.pi\<close> is a Python float
  too, so both divisions of \<open>Q/np.pi/K\<close> are Python's), and with \<open>r\<close>, \<open>r1\<close>, \<open>b1\<close>
  numpy values, so \<open>r/r1\<close> is numpy's division. On an array of radii numpy applies the
  same computation to each element; the function below is the computation for one radius.
\<close>

definition Theim ::
  "npfloat \<Rightarrow> npfloat \<Rightarrow> npfloat \<Rightarrow> npfloat \<Rightarrow> npfloat \<Rightarrow> py_error + npfloat" where
  "Theim r r1 b1 Q K =
     (case py_truediv Q (Fin pi) of
        Inl e \<Rightarrow> Inl e
      | Inr q \<Rightarrow>
          (case py_truediv q K of
             Inl e \<Rightarrow> Inl e
           | Inr qk \<Rightarrow>
               (let LHS = np_mul qk (np_log (np_div r r1));
                    b = np_sqrt (np_add LHS (np_power b1 2))
                in Inr b)))"

text \<open>
  The closed form of the specification, on real numbers:
  thickness(r, r1, b1, Q, K) = sqrt( Q/(pi K) ln(r/r1) + b1^2 ), which has no value
  (not-a-number) when the argument of the square root is negative.
\<close>

definition thickness_arg :: "real \<Rightarrow> real \<Rightarrow> real \<Rightarrow> real \<Rightarrow> real \<Rightarrow> real" where
  "thickness_arg r r1 b1 Q K = Q / (pi * K) * ln (r / r1) + b1\<^sup>2"

definition thickness :: "real \<Rightarrow> real \<Rightarrow> real \<Rightarrow> real \<Rightarrow> real \<Rightarrow> npfloat" where
  "thickness r r1 b1 Q K =
     (if thickness_arg r r1 b1 Q K < 0 then NaN else Fin (sqrt (thickness_arg r r1 b1 Q K)))"

section \<open>Float64 arithmetic\<close>

text \<open>
  A finite float64 is zero or \<open>n * 2^e\<close> with an integer \<open>n\<close>, \<open>|n| < 2^53\<close>, and
  \<open>-1074 \<le> e \<le> 971\<close>. For a real \<open>x\<close> between \<open>2^k\<close> and \<open>2^(k+1)\<close> in magnitude the
  floats near \<open>x\<close> are the multiples of \<open>2^(k-52)\<close>, and of \<open>2^(-1074)\<close> in the subnormal
  range: \<open>ulp_exp x\<close> is that exponent. \<open>rnd x\<close> is the multiple nearest to \<open>x\<close>, the
  even one on a tie (the rounding of IEEE 754 that numpy and Python use), and
  \<open>round64\<close> turns a result of magnitude \<open>2^1024\<close> or more into an infinity.
\<close>

definition ulp_exp :: "real \<Rightarrow> int" where
  "ulp_exp x = max (\<lfloor>log 2 \<bar>x\<bar>\<rfloor> - 52) (- 1074)"

definition round_half_even :: "real \<Rightarrow> int" where
  "round_half_even y =
     (let n = \<lfloor>y\<rfloor>; d = y - of_int n
      in if d < 1 / 2 then n else if 1 / 2 < d then n + 1 else if even n then n else n + 1)"

definition rnd :: "real \<Rightarrow> real" where
  "rnd x = (if x = 0 then 0
            else of_int (round_half_even (x / 2 powi ulp_exp x)) * 2 powi ulp_exp x)"

definition round64 :: "real \<Rightarrow> npfloat" where
  "round64 x =
     (if 2 ^ 1024 \<le> \<bar>rnd x\<bar> then (if 0 < x then PInf else NInf) else Fin (rnd x))"

definition is_f64 :: "real \<Rightarrow> bool" where
  "is_f64 x \<longleftrightarrow> rnd x = x \<and> \<bar>x\<bar> < 2 ^ 1024"

text \<open>
  A real is in range when rounding it neither overflows nor loses precision to
  underflow: it is zero, or its magnitude lies between \<open>2^(-1022)\<close> and \<open>2^1023\<close>.
\<close>

definition in_range :: "real \<Rightarrow> bool" where
  "in_range x \<longleftrightarrow> x = 0 \<or> (2 powi (- 1022) \<le> \<bar>x\<bar> \<and> \<bar>x\<bar> \<le> 2 ^ 1023)"

text \<open>\<open>np.pi\<close>, the float64 nearest to \<open>pi\<close>: \<open>0x1.921fb54442d18p+1\<close>.\<close>

definition pi64 :: real where
  "pi64 = 884279719003555 / 2 ^ 48"

text \<open>
  The operations on floats: the finite case is rounded, the special values follow the
  tables of the first section. Addition, multiplication, division and the square root are
  correctly rounded by IEEE 754. The logarithm and the power come from the C library,
  which is accurate to about one unit in the last place and not always correctly
  rounded; they are taken here as correctly rounded. The theorem on the closed form
  allows each of them an error of one unit in the last place, the theorems on a negative
  argument and on scaling do not depend on their rounding, and the theorem at the
  reference radius uses \<open>log 1 = 0\<close> and the correct rounding of the square.
\<close>

definition f64_add :: "npfloat \<Rightarrow> npfloat \<Rightarrow> npfloat" where
  "f64_add x y = (case (x, y) of (Fin a, Fin b) \<Rightarrow> round64 (a + b) | _ \<Rightarrow> np_add x y)"

definition f64_sub :: "npfloat \<Rightarrow> npfloat \<Rightarrow> npfloat" where
  "f64_sub x y = f64_add x (np_neg y)"

definition f64_mul :: "npfloat \<Rightarrow> npfloat \<Rightarrow> npfloat" where
  "f64_mul x y = (case (x, y) of (Fin a, Fin b) \<Rightarrow> round64 (a * b) | _ \<Rightarrow> np_mul x y)"

definition f64_div :: "npfloat \<Rightarrow> npfloat \<Rightarrow> npfloat" where
  "f64_div x y =
     (case (x, y) of
        (Fin a, Fin b) \<Rightarrow> if b \<noteq> 0 then round64 (a / b) else np_div x y
      | _ \<Rightarrow> np_div x y)"

definition f64_truediv :: "npfloat \<Rightarrow> npfloat \<Rightarrow> py_error + npfloat" where
  "f64_truediv a b = (if b = Fin 0 then Inl ZeroDivisionError else Inr (f64_div a b))"

definition f64_log :: "npfloat \<Rightarrow> npfloat" where
  "f64_log x = (case x of Fin a \<Rightarrow> if 0 < a then round64 (ln a) else np_log x | _ \<Rightarrow> np_log x)"

definition f64_sqrt :: "npfloat \<Rightarrow> npfloat" where
  "f64_sqrt x = (case x of Fin a \<Rightarrow> if a < 0 then NaN else round64 (sqrt a) | _ \<Rightarrow> np_sqrt x)"

definition f64_power :: "npfloat \<Rightarrow> nat \<Rightarrow> npfloat" where
  "f64_power x n = (case x of Fin a \<Rightarrow> round64 (a ^ n) | _ \<Rightarrow> np_power x n)"

text \<open>The Theim solution in float64 arithmetic, line by line as above.\<close>

definition Theim_f64 ::
  "npfloat \<Rightarrow> npfloat \<Rightarrow> npfloat \<Rightarrow> npfloat \<Rightarrow> npfloat \<Rightarrow> py_error + npfloat" where
  "Theim_f64 r r1 b1 Q K =
     (case f64_truediv Q (Fin pi64) of
        Inl e \<Rightarrow> Inl e
      | Inr q \<Rightarrow>
          (case f64_truediv q K of
             Inl e \<Rightarrow> Inl e
           | Inr qk \<Rightarrow>
               (let LHS = f64_mul qk (f64_log (f64_div r r1));
                    b = f64_sqrt (f64_add LHS (f64_power b1 2))
                in Inr b)))"

text \<open>A float is negative when it is a negative number or minus infinity.\<close>

definition is_negative :: "npfloat \<Rightarrow> bool" where
  "is_negative x = (case x of Fin a \<Rightarrow> a < 0 | NInf \<Rightarrow> True | _ \<Rightarrow> False)"

text \<open>
  The range condition of the Theim solution: each of its eight operations, applied to
  the rounded results of the operations before it, has a result in range.
\<close>

definition Theim_in_range :: "real \<Rightarrow> real \<Rightarrow> real \<Rightarrow> real \<Rightarrow> real \<Rightarrow> bool" where
  "Theim_in_range r r1 b1 Q K =
     (let d = rnd (r / r1);
          L = rnd (ln d);
          q = rnd (Q / pi64);
          qk = rnd (q / K);
          P = rnd (qk * L);
          S = rnd (b1\<^sup>2);
          A = rnd (P + S)
      in in_range (r / r1) \<and> in_range (ln d) \<and> in_range (Q / pi64) \<and> in_range (q / K)
         \<and> in_range (qk * L) \<and> in_range (b1\<^sup>2) \<and> in_range (P + S)
         \<and> (A < 0 \<or> in_range (sqrt A)))"

section \<open>The cells of the notebook\<close>

subsection \<open>Loading the drawdown data\<close>

text \<open>
  \<^verbatim>\<open>
  t,h4d=np.loadtxt('Piez4_drawdown.csv',delimiter=',',skiprows=1,unpack=True)
  t,h3d=np.loadtxt('Piez3_drawdown.csv',delimiter=',',skiprows=1,unpack=True)
  t,h1d=np.loadtxt('Piez1_drawdown.csv',delimiter=',',skiprows=1,unpack=True)
  t,wd=np.loadtxt('Well_drawdown.csv',delimiter=',',skiprows=1,unpack=True)
  \<close>
  \<open>np.loadtxt\<close> is numpy's. A drawdown file is taken as the list of its data rows, each
  a time and a head. With \<open>unpack=True\<close> a file of two rows or more comes back as its two
  columns, each a one-dimensional array. A file of one row comes back as a
  one-dimensional array of that row, and the assignment binds the two names to its two
  numbers: scalars, not arrays. A file with a header and no data row comes back as an
  empty array, and the assignment to two names raises \<open>ValueError\<close>. So a name is bound
  to a scalar or to an array.
\<close>

datatype ndarray = Scalar npfloat | Array "npfloat list"

type_synonym loaded_file = "ndarray \<times> ndarray"

definition loadtxt_unpack :: "(npfloat \<times> npfloat) list \<Rightarrow> py_error + loaded_file" where
  "loadtxt_unpack rows =
     (case rows of
        [] \<Rightarrow> Inl ValueError
      | [(a, b)] \<Rightarrow> Inr (Scalar a, Scalar b)
      | _ \<Rightarrow> Inr (Array (map fst rows), Array (map snd rows)))"

text \<open>
  The cell binds the name \<open>t\<close> four times, each binding replacing the one before.
\<close>

record series =
  t :: ndarray
  h4d :: ndarray
  h3d :: ndarray
  h1d :: ndarray
  wd :: ndarray

definition load_drawdown ::
  "loaded_file \<Rightarrow> loaded_file \<Rightarrow> loaded_file \<Rightarrow> loaded_file \<Rightarrow> series" where
  "load_drawdown piez4 piez3 piez1 well =
     (let (t, h4d) = piez4;
          (t, h3d) = piez3;
          (t, h1d) = piez1;
          (t, wd) = well
      in \<lparr>t = t, h4d = h4d, h3d = h3d, h1d = h1d, wd = wd\<rparr>)"

text \<open>The whole cell, from the rows of the four files, read in the order of the cell.\<close>

definition load_cell ::
  "(npfloat \<times> npfloat) list \<Rightarrow> (npfloat \<times> npfloat) list \<Rightarrow> (npfloat \<times> npfloat) list \<Rightarrow>
   (npfloat \<times> npfloat) list \<Rightarrow> py_error + series" where
  "load_cell f4 f3 f1 fw =
     (case loadtxt_unpack f4 of
        Inl e \<Rightarrow> Inl e
      | Inr piez4 \<Rightarrow>
     (case loadtxt_unpack f3 of
        Inl e \<Rightarrow> Inl e
      | Inr piez3 \<Rightarrow>
     (case loadtxt_unpack f1 of
        Inl e \<Rightarrow> Inl e
      | Inr piez1 \<Rightarrow>
     (case loadtxt_unpack fw of
        Inl e \<Rightarrow> Inl e
      | Inr well \<Rightarrow> Inr (load_drawdown piez4 piez3 piez1 well)))))"

subsection \<open>Converting heads to drawdown\<close>

text \<open>
  \<^verbatim>\<open>
  h4d=h4d-h4d[0]
  h3d=h3d-h3d[0]
  h1d=h1d-h1d[0]
  wd=wd-wd[0]
  \<close>
  \<open>h[0]\<close> raises \<open>IndexError\<close> on a scalar and on an empty array; the subtraction of the
  scalar \<open>h[0]\<close> from an array is elementwise, in float64 arithmetic.
\<close>

definition drawdown :: "ndarray \<Rightarrow> py_error + ndarray" where
  "drawdown h =
     (case h of
        Scalar _ \<Rightarrow> Inl IndexError
      | Array [] \<Rightarrow> Inl IndexError
      | Array (h0 # rest) \<Rightarrow> Inr (Array (map (\<lambda>x. f64_sub x h0) (h0 # rest))))"

definition to_drawdown :: "series \<Rightarrow> py_error + series" where
  "to_drawdown s =
     (case drawdown (h4d s) of
        Inl e \<Rightarrow> Inl e
      | Inr d4 \<Rightarrow>
     (case drawdown (h3d s) of
        Inl e \<Rightarrow> Inl e
      | Inr d3 \<Rightarrow>
     (case drawdown (h1d s) of
        Inl e \<Rightarrow> Inl e
      | Inr d1 \<Rightarrow>
     (case drawdown (wd s) of
        Inl e \<Rightarrow> Inl e
      | Inr dw \<Rightarrow> Inr (s\<lparr>h4d := d4, h3d := d3, h1d := d1, wd := dw\<rparr>)))))"

definition is_finite :: "npfloat \<Rightarrow> bool" where
  "is_finite x = (case x of Fin _ \<Rightarrow> True | _ \<Rightarrow> False)"

subsection \<open>The radius sweep\<close>

text \<open>
  \<^verbatim>\<open>
  ra=np.linspace(0,30)
  ra[0]=0.005
  \<close>
  \<open>np.linspace\<close> is numpy's: with its default of 50 points and the end point included
  it computes \<open>step = (stop - start) / (num - 1)\<close>, the points \<open>i * step + start\<close> for
  \<open>i = 0, ..., num - 1\<close>, and then stores \<open>stop\<close> itself in the last position.
\<close>

definition linspace :: "real \<Rightarrow> real \<Rightarrow> nat \<Rightarrow> npfloat list" where
  "linspace start stop num =
     (let step = (stop - start) / real (num - 1);
          y = map (\<lambda>i. Fin (real i * step + start)) [0..<num]
      in if 1 < num then y[num - 1 := Fin stop] else y)"

definition ra :: "npfloat list" where
  "ra = (linspace 0 30 50)[0 := Fin 0.005]"

subsection \<open>Reporting the hydraulic conductivity\<close>

text \<open>
  \<^verbatim>\<open>
  print('The hydraulic conductivity of the aquifer is %.1e m/min'%(K/60))
  print('The hydraulic conductivity of the aquifer is %.3f m/d'%(K*60*24))
  \<close>
  Each printed line is a format and the number given to it. The divisor 60 is a literal,
  so Python's division cannot raise here.
\<close>

definition print_K :: "npfloat \<Rightarrow> (string \<times> npfloat) list" where
  "print_K K =
     [(''The hydraulic conductivity of the aquifer is %.1e m/min'', np_div K (Fin 60)),
      (''The hydraulic conductivity of the aquifer is %.3f m/d'',
         np_mul (np_mul K (Fin 60)) (Fin 24))]"

subsection \<open>The worked example and the polynomials that bound it\<close>

text \<open>
  The argument of the square root in the worked example of the specification,
  \<open>r = 10\<close>, \<open>r1 = 5\<close>, \<open>b1 = 9.5\<close>, \<open>Q = 0.01\<close>, \<open>K = 0.001\<close>.
\<close>

definition example_arg :: real where
  "example_arg = 0.01 / (pi * 0.001) * ln 2 + 9.5\<^sup>2"

text \<open>
  The Taylor polynomials of the cosine (degree 8) and of the exponential (degree 6), from
  which bounds on \<open>pi\<close> and \<open>ln 2\<close> are computed.
\<close>

definition cos_poly :: "real \<Rightarrow> real" where
  "cos_poly x = 1 - x\<^sup>2 / 2 + x ^ 4 / 24 - x ^ 6 / 720 + x ^ 8 / 40320"

definition exp_poly :: "real \<Rightarrow> real" where
  "exp_poly x = 1 + x + x\<^sup>2 / 2 + x ^ 3 / 6 + x ^ 4 / 24 + x ^ 5 / 120 + x ^ 6 / 720"

section \<open>Properties of the Theim solution in exact arithmetic\<close>

lemma Theim_finite:
  assumes "r1 \<noteq> 0" and "0 < r / r1" and "K \<noteq> 0"
  shows "Theim (Fin r) (Fin r1) (Fin b1) (Fin Q) (Fin K) =
           Inr (np_sqrt (Fin (Q / pi / K * ln (r / r1) + b1\<^sup>2)))"
  using assms by (simp add: Theim_def py_truediv_def)

lemma Theim_Fin_cases:
  assumes "0 < K" and "0 < Q" and "0 < r"
    and "Theim (Fin r) r1 b1 (Fin Q) (Fin K) = Inr (Fin y)"
  obtains s c where "r1 = Fin s" and "0 < s" and "b1 = Fin c"
    and "0 \<le> Q / pi / K * ln (r / s) + c\<^sup>2"
    and "y = sqrt (Q / pi / K * ln (r / s) + c\<^sup>2)"
proof -
  have qk: "0 < Q / pi / K"
    using assms by simp
  obtain s where s: "r1 = Fin s" "0 < s"
    using assms(4) qk assms(1,3)
    by (cases r1; cases b1)
       (auto simp: Theim_def py_truediv_def Let_def zero_less_divide_iff split: if_splits)
  obtain c where c: "b1 = Fin c"
    using assms(4) qk assms(1,3) s
    by (cases b1) (auto simp: Theim_def py_truediv_def Let_def split: if_splits)
  have pos: "s \<noteq> 0" "0 < r / s" "K \<noteq> 0"
    using assms s by simp_all
  have "np_sqrt (Fin (Q / pi / K * ln (r / s) + c\<^sup>2)) = Fin y"
    using assms(4) unfolding s c Theim_finite [OF pos] by simp
  then have "0 \<le> Q / pi / K * ln (r / s) + c\<^sup>2"
    and "y = sqrt (Q / pi / K * ln (r / s) + c\<^sup>2)"
    by (auto split: if_splits)
  with s c show thesis
    using that by blast
qed

text \<open>
  Claim C4. For positive \<open>K\<close> and \<open>Q\<close> and two positive radii, the smaller first, at
  which the function returns a finite number, the thickness at the larger radius is at
  least the thickness at the smaller one. The reference radius and thickness are
  arbitrary.
\<close>

theorem Theim_monotone:
  assumes "0 < K" and "0 < Q" and "0 < rlo" and "rlo < rhi"
    and "Theim (Fin rhi) r1 b1 (Fin Q) (Fin K) = Inr (Fin yhi)"
    and "Theim (Fin rlo) r1 b1 (Fin Q) (Fin K) = Inr (Fin ylo)"
  shows "ylo \<le> yhi"
proof -
  from assms(1,2,3,6) obtain s c where a: "r1 = Fin s" "0 < s" "b1 = Fin c"
    "ylo = sqrt (Q / pi / K * ln (rlo / s) + c\<^sup>2)"
    by (rule Theim_Fin_cases)
  have "0 < rhi"
    using assms(3,4) by simp
  from assms(1,2) this assms(5) obtain s' c' where b: "r1 = Fin s'" "b1 = Fin c'"
    "yhi = sqrt (Q / pi / K * ln (rhi / s') + c'\<^sup>2)"
    by (rule Theim_Fin_cases)
  have same: "s' = s" "c' = c"
    using a b by simp_all
  have "rlo / s < rhi / s"
    using assms(4) a(2) by (simp add: divide_strict_right_mono)
  moreover have "0 < rlo / s"
    using assms(3) a(2) by simp
  ultimately have "ln (rlo / s) \<le> ln (rhi / s)"
    by simp
  moreover have "0 \<le> Q / pi / K"
    using assms(1,2) by simp
  ultimately have "Q / pi / K * ln (rlo / s) \<le> Q / pi / K * ln (rhi / s)"
    by (rule mult_left_mono)
  then show ?thesis
    unfolding a(4) b(3) same by simp
qed

theorem Theim_monotone_witness:
  "(0::real) < 1 \<and> (0::real) < pi \<and> (0::real) < 1 \<and> (1::real) < exp 5
   \<and> Theim (Fin (exp 5)) (Fin 1) (Fin 2) (Fin pi) (Fin 1) = Inr (Fin 3)
   \<and> Theim (Fin 1) (Fin 1) (Fin 2) (Fin pi) (Fin 1) = Inr (Fin 2)
   \<and> (2::real) \<le> 3"
proof -
  have "sqrt 9 = sqrt (3\<^sup>2)"
    by simp
  then have s9: "sqrt 9 = 3"
    unfolding real_sqrt_abs by simp
  have big: "Theim (Fin (exp 5)) (Fin 1) (Fin 2) (Fin pi) (Fin 1) = Inr (Fin 3)"
    by (simp add: Theim_def py_truediv_def s9)
  have small: "Theim (Fin 1) (Fin 1) (Fin 2) (Fin pi) (Fin 1) = Inr (Fin 2)"
    by (simp add: Theim_def py_truediv_def)
  have lt: "(1::real) < exp 5"
    by simp
  show ?thesis
    using Theim_monotone [OF _ _ _ lt big small] big small lt by simp
qed

section \<open>Bounds on pi and on the logarithm of two\<close>

lemma sum_lessThan_10:
  fixes f :: "nat \<Rightarrow> real"
  shows "(\<Sum>m<10. f m) = f 0 + f 1 + f 2 + f 3 + f 4 + f 5 + f 6 + f 7 + f 8 + f 9"
  by (simp add: eval_nat_numeral lessThan_Suc)

lemma sum_lessThan_7:
  fixes f :: "nat \<Rightarrow> real"
  shows "(\<Sum>m<7. f m) = f 0 + f 1 + f 2 + f 3 + f 4 + f 5 + f 6"
  by (simp add: eval_nat_numeral lessThan_Suc)

lemma cos_poly_sum: "(\<Sum>m<10. cos_coeff m * x ^ m) = cos_poly x"
  unfolding sum_lessThan_10 cos_poly_def by (simp add: cos_coeff_def fact_numeral)

lemma exp_poly_sum: "(\<Sum>m<7. x ^ m / fact m) = exp_poly x"
  unfolding sum_lessThan_7 exp_poly_def by (simp add: fact_numeral)

lemma cos_remainder:
  "\<bar>cos x - cos_poly x\<bar> \<le> \<bar>x\<bar> ^ 10 / 3628800"
proof -
  obtain u where u: "cos x = (\<Sum>m<10. cos_coeff m * x ^ m)
      + (cos (u + 1 / 2 * real (10::nat) * pi) / fact 10) * x ^ 10"
    using Maclaurin_cos_expansion [of x 10] by blast
  have f10: "fact 10 = (3628800::real)"
    by (simp add: fact_numeral)
  have "\<bar>cos x - cos_poly x\<bar>
      = \<bar>cos (u + 1 / 2 * real (10::nat) * pi)\<bar> * (\<bar>x\<bar> ^ 10 / 3628800)"
    unfolding u f10 cos_poly_sum by (simp add: abs_mult power_abs)
  also have "\<dots> \<le> 1 * (\<bar>x\<bar> ^ 10 / 3628800)"
    by (intro mult_right_mono abs_cos_le_one) simp
  finally show ?thesis
    by simp
qed

lemma pi_gt_31412: "3.1412 < pi"
proof -
  let ?x = "1.5706 :: real"
  have "cos_poly ?x - \<bar>?x\<bar> ^ 10 / 3628800 \<le> cos ?x"
    using cos_remainder [of ?x] by linarith
  moreover have "0 < cos_poly ?x - \<bar>?x\<bar> ^ 10 / 3628800"
    by (simp add: cos_poly_def power_divide)
  ultimately have pos: "0 < cos ?x"
    by linarith
  have "?x < pi / 2"
  proof (rule ccontr)
    assume "\<not> ?x < pi / 2"
    then have "pi / 2 \<le> ?x"
      by simp
    moreover have "?x \<le> pi"
      using pi_ge_two by simp
    moreover have "0 \<le> pi / 2"
      by simp
    ultimately have "cos ?x \<le> cos (pi / 2)"
      by (intro cos_monotone_0_pi_le)
    with pos show False
      by simp
  qed
  then show ?thesis
    by simp
qed

lemma pi_le_3142: "pi \<le> 3.142"
proof -
  let ?x = "1.571 :: real"
  have "cos ?x \<le> cos_poly ?x + \<bar>?x\<bar> ^ 10 / 3628800"
    using cos_remainder [of ?x] by linarith
  moreover have "cos_poly ?x + \<bar>?x\<bar> ^ 10 / 3628800 < 0"
    by (simp add: cos_poly_def power_divide)
  ultimately have neg: "cos ?x < 0"
    by linarith
  have "\<not> ?x < pi / 2"
  proof
    assume "?x < pi / 2"
    then have "0 < cos ?x"
      by (intro cos_gt_zero) simp_all
    with neg show False
      by simp
  qed
  then show ?thesis
    by simp
qed

lemma exp_remainder:
  assumes "0 \<le> x"
  shows "exp_poly x \<le> exp x" and "exp x \<le> exp_poly x + exp x * (x ^ 7 / 5040)"
proof -
  obtain u where u: "\<bar>u\<bar> \<le> \<bar>x\<bar>" "exp x = (\<Sum>m<7. x ^ m / fact m) + (exp u / fact 7) * x ^ 7"
    using Maclaurin_exp_le [of x 7] by blast
  have f7: "fact 7 = (5040::real)"
    by (simp add: fact_numeral)
  have eq: "exp x = exp_poly x + exp u * (x ^ 7 / 5040)"
    using u(2) unfolding exp_poly_sum f7 by simp
  have x7: "0 \<le> x ^ 7 / 5040"
    using assms by simp
  have "0 \<le> exp u * (x ^ 7 / 5040)"
    using x7 by simp
  then show "exp_poly x \<le> exp x"
    unfolding eq by simp
  have "u \<le> x"
    using u(1) assms by simp
  then have "exp u \<le> exp x"
    by simp
  then have "exp u * (x ^ 7 / 5040) \<le> exp x * (x ^ 7 / 5040)"
    using x7 by (rule mult_right_mono)
  then show "exp x \<le> exp_poly x + exp x * (x ^ 7 / 5040)"
    using eq by linarith
qed

lemma ln2_less_06932: "ln 2 < (0.6932::real)"
proof -
  have "(2::real) < exp_poly 0.6932"
    by (simp add: exp_poly_def power_divide)
  also have "\<dots> \<le> exp 0.6932"
    by (rule exp_remainder) simp
  finally have "exp (ln 2) < exp (0.6932::real)"
    by simp
  then show ?thesis
    unfolding exp_less_cancel_iff .
qed

lemma ln2_greater_0693: "(0.693::real) < ln 2"
proof -
  let ?x = "0.693 :: real"
  have "exp ?x \<le> exp_poly ?x + exp ?x * (?x ^ 7 / 5040)"
    by (rule exp_remainder) simp
  then have "exp ?x * (1 - ?x ^ 7 / 5040) \<le> exp_poly ?x"
    by (simp add: algebra_simps)
  moreover have "exp_poly ?x < 2 * (1 - ?x ^ 7 / 5040)"
    by (simp add: exp_poly_def power_divide)
  ultimately have "exp ?x * (1 - ?x ^ 7 / 5040) < 2 * (1 - ?x ^ 7 / 5040)"
    by linarith
  moreover have "0 < 1 - ?x ^ 7 / 5040"
    by (simp add: power_divide)
  ultimately have "exp ?x < 2"
    by (simp only: mult_less_cancel_right_pos)
  then have "exp ?x < exp (ln 2)"
    by simp
  then show ?thesis
    unfolding exp_less_cancel_iff .
qed

section \<open>Rounding to float64\<close>

lemma two_powr_int: "(2::real) powr of_int k = 2 powi k"
  by (simp add: powr_real_of_int')

lemma two_powr_int_Suc: "(2::real) powr (of_int k + 1) = 2 powi (k + 1)"
  using two_powr_int [of "k + 1"] by simp

lemma floor_log2_bounds:
  assumes "x \<noteq> 0"
  shows "2 powi \<lfloor>log 2 \<bar>x\<bar>\<rfloor> \<le> \<bar>x\<bar>" and "\<bar>x\<bar> < 2 powi (\<lfloor>log 2 \<bar>x\<bar>\<rfloor> + 1)"
proof -
  have pos: "0 < \<bar>x\<bar>"
    using assms by simp
  have "(2::real) powr of_int \<lfloor>log 2 \<bar>x\<bar>\<rfloor> \<le> \<bar>x\<bar>
      \<and> \<bar>x\<bar> < 2 powr of_int (\<lfloor>log 2 \<bar>x\<bar>\<rfloor> + 1)"
    using floor_log_eq_powr_iff [OF pos, of 2 "\<lfloor>log 2 \<bar>x\<bar>\<rfloor>"] by simp
  then show "2 powi \<lfloor>log 2 \<bar>x\<bar>\<rfloor> \<le> \<bar>x\<bar>" and "\<bar>x\<bar> < 2 powi (\<lfloor>log 2 \<bar>x\<bar>\<rfloor> + 1)"
    by (simp_all add: two_powr_int two_powr_int_Suc)
qed

lemma floor_log2_eqI:
  assumes "2 powi k \<le> \<bar>x\<bar>" and "\<bar>x\<bar> < 2 powi (k + 1)"
  shows "\<lfloor>log 2 \<bar>x\<bar>\<rfloor> = k"
proof -
  have "(0::real) < 2 powi k"
    by simp
  then have pos: "0 < \<bar>x\<bar>"
    using assms(1) by linarith
  have "(2::real) powr of_int k \<le> \<bar>x\<bar> \<and> \<bar>x\<bar> < 2 powr of_int (k + 1)"
    using assms by (simp add: two_powr_int two_powr_int_Suc)
  then show ?thesis
    using floor_log_eq_powr_iff [OF pos, of 2 k] by simp
qed

lemma round_half_even_near:
  "\<bar>of_int (round_half_even y) - y\<bar> \<le> 1 / 2"
  unfolding round_half_even_def Let_def by (auto; linarith)

lemma round_half_even_eqI:
  assumes "\<bar>y - of_int n\<bar> < 1 / 2"
  shows "round_half_even y = n"
proof -
  have "\<lfloor>y\<rfloor> = n \<or> \<lfloor>y\<rfloor> = n - 1"
    using assms by linarith
  then show ?thesis
    using assms unfolding round_half_even_def Let_def by (auto; linarith)
qed

lemma round_half_even_of_int [simp]: "round_half_even (of_int n) = n"
  by (rule round_half_even_eqI) simp

lemma two_powi_less_cancel:
  assumes "(2::real) powi a < 2 powi b"
  shows "a < b"
proof (rule ccontr)
  assume "\<not> a < b"
  then have "b \<le> a"
    by simp
  then have "(2::real) powi b \<le> 2 powi a"
    by (intro power_int_increasing) simp_all
  with assms show False
    by simp
qed

lemma ulp_exp_ge: "- 1074 \<le> ulp_exp x"
  by (simp add: ulp_exp_def)

lemma ulp_exp_normal:
  assumes "2 powi (- 1022) \<le> \<bar>x\<bar>"
  shows "ulp_exp x = \<lfloor>log 2 \<bar>x\<bar>\<rfloor> - 52"
proof -
  have "(0::real) < 2 powi (- 1022)"
    by (rule zero_less_power_int) simp
  with assms have nz: "x \<noteq> 0"
    by auto
  define k where "k = \<lfloor>log 2 \<bar>x\<bar>\<rfloor>"
  have "(2::real) powi (- 1022) < 2 powi (k + 1)"
    using assms floor_log2_bounds(2) [OF nz] unfolding k_def by linarith
  then have "- 1022 < k + 1"
    by (rule two_powi_less_cancel)
  then have "max (k - 52) (- 1074) = k - 52"
    by linarith
  then show ?thesis
    unfolding ulp_exp_def k_def .
qed

lemma abs_less_ulp:
  assumes "x \<noteq> 0"
  shows "\<bar>x\<bar> < 2 powi (ulp_exp x + 53)"
proof -
  have "\<lfloor>log 2 \<bar>x\<bar>\<rfloor> + 1 \<le> ulp_exp x + 53"
    by (simp add: ulp_exp_def)
  then have "(2::real) powi (\<lfloor>log 2 \<bar>x\<bar>\<rfloor> + 1) \<le> 2 powi (ulp_exp x + 53)"
    by (intro power_int_increasing) simp_all
  with floor_log2_bounds(2) [OF assms] show ?thesis
    by linarith
qed

lemma ulp_le_abs:
  assumes "2 powi (- 1022) \<le> \<bar>x\<bar>"
  shows "2 powi (ulp_exp x + 52) \<le> \<bar>x\<bar>"
proof -
  have "(0::real) < 2 powi (- 1022)"
    by (rule zero_less_power_int) simp
  with assms have nz: "x \<noteq> 0"
    by auto
  show ?thesis
    using floor_log2_bounds(1) [OF nz] by (simp add: ulp_exp_normal [OF assms])
qed

lemma rnd_0 [simp]: "rnd 0 = 0"
  by (simp add: rnd_def)

lemma rnd_error: "\<bar>rnd x - x\<bar> \<le> 2 powi ulp_exp x / 2"
proof (cases "x = 0")
  case True
  then show ?thesis
    by simp
next
  case False
  let ?p = "(2::real) powi ulp_exp x"
  let ?m = "x / ?p"
  have p: "0 < ?p"
    by simp
  have "rnd x - x = (of_int (round_half_even ?m) - ?m) * ?p"
    using False p by (simp add: rnd_def algebra_simps)
  then have "\<bar>rnd x - x\<bar> = \<bar>of_int (round_half_even ?m) - ?m\<bar> * ?p"
    using p by (simp add: abs_mult)
  also have "\<dots> \<le> 1 / 2 * ?p"
    using p by (intro mult_right_mono round_half_even_near) simp
  finally show ?thesis
    by simp
qed

lemma rnd_rel_error:
  assumes "2 powi (- 1022) \<le> \<bar>x\<bar>"
  shows "\<bar>rnd x - x\<bar> \<le> \<bar>x\<bar> / 2 ^ 53"
proof -
  have "(2::real) powi (ulp_exp x + 52) = 2 powi ulp_exp x * 2 ^ 52"
    by (simp add: power_int_add)
  then have "2 powi ulp_exp x * 2 ^ 52 \<le> \<bar>x\<bar>"
    using ulp_le_abs [OF assms] by simp
  then have "2 powi ulp_exp x / 2 \<le> \<bar>x\<bar> / 2 ^ 53"
    by (simp add: field_simps)
  with rnd_error [of x] show ?thesis
    by linarith
qed

lemma rnd_exact:
  assumes "x = of_int n * 2 powi e" and "\<bar>n\<bar> < 2 ^ 53" and "- 1074 \<le> e"
  shows "rnd x = x"
proof (cases "x = 0")
  case True
  then show ?thesis
    by simp
next
  case False
  have "\<bar>x\<bar> = of_int \<bar>n\<bar> * 2 powi e"
    unfolding assms(1) by (simp add: abs_mult)
  also have "\<dots> < 2 ^ 53 * 2 powi e"
  proof (rule mult_strict_right_mono)
    have "real_of_int \<bar>n\<bar> < real_of_int (2 ^ 53)"
      using assms(2) by (simp only: of_int_less_iff)
    then show "real_of_int \<bar>n\<bar> < 2 ^ 53"
      by simp
  qed simp
  also have "\<dots> = 2 powi (e + 53)"
    by (simp add: power_int_add)
  finally have "\<bar>x\<bar> < 2 powi (e + 53)" .
  with floor_log2_bounds(1) [OF False] have "(2::real) powi \<lfloor>log 2 \<bar>x\<bar>\<rfloor> < 2 powi (e + 53)"
    by linarith
  then have "\<lfloor>log 2 \<bar>x\<bar>\<rfloor> < e + 53"
    by (rule two_powi_less_cancel)
  then have le: "ulp_exp x \<le> e"
    using assms(3) by (simp add: ulp_exp_def)
  define d where "d = nat (e - ulp_exp x)"
  define u where "u = ulp_exp x"
  have e: "e = u + int d"
    using le by (simp add: d_def u_def)
  have "(2::real) powi e = 2 powi u * 2 ^ d"
    unfolding e by (simp add: power_int_add)
  then have "x = of_int (n * 2 ^ d) * 2 powi u"
    using assms(1) by simp
  then have m: "x / 2 powi u = of_int (n * 2 ^ d)"
    by simp
  have "rnd x = of_int (round_half_even (x / 2 powi u)) * 2 powi u"
    using False by (simp add: rnd_def u_def)
  also have "\<dots> = of_int (n * 2 ^ d) * 2 powi u"
    unfolding m round_half_even_of_int ..
  also have "\<dots> = x"
    using m by (simp add: field_simps)
  finally show ?thesis .
qed

lemma round_half_even_abs_le:
  assumes "\<bar>y\<bar> < 2 ^ 53"
  shows "\<bar>round_half_even y\<bar> \<le> 2 ^ 53"
proof -
  have "\<bar>of_int (round_half_even y) - y\<bar> \<le> 1 / 2"
    by (rule round_half_even_near)
  then have "\<bar>real_of_int (round_half_even y)\<bar> < 2 ^ 53 + 1"
    using assms by linarith
  then have "real_of_int \<bar>round_half_even y\<bar> < real_of_int (2 ^ 53 + 1)"
    by simp
  then have "\<bar>round_half_even y\<bar> < 2 ^ 53 + 1"
    by (simp only: of_int_less_iff)
  then show ?thesis
    by simp
qed

lemma rnd_idem: "rnd (rnd x) = rnd x"
proof (cases "x = 0")
  case True
  then show ?thesis
    by simp
next
  case False
  let ?p = "(2::real) powi ulp_exp x"
  let ?N = "round_half_even (x / ?p)"
  have r: "rnd x = of_int ?N * ?p"
    using False by (simp add: rnd_def)
  have "\<bar>x\<bar> < 2 powi (ulp_exp x + 53)"
    by (rule abs_less_ulp [OF False])
  also have "\<dots> = ?p * 2 ^ 53"
    by (simp add: power_int_add)
  finally have "\<bar>x / ?p\<bar> < 2 ^ 53"
    by (simp add: field_simps)
  then have N: "\<bar>?N\<bar> \<le> 2 ^ 53"
    by (rule round_half_even_abs_le)
  show ?thesis
  proof (cases "\<bar>?N\<bar> < 2 ^ 53")
    case True
    show ?thesis
      by (rule rnd_exact [OF r True ulp_exp_ge])
  next
    case False
    with N have "\<bar>?N\<bar> = 2 ^ 53"
      by simp
    then consider "?N = 2 ^ 53" | "?N = - (2 ^ 53)"
      by linarith
    then show ?thesis
    proof cases
      case 1
      have "rnd x = of_int 1 * 2 powi (ulp_exp x + 53)"
        unfolding r 1 by (simp add: power_int_add)
      then show ?thesis
        using ulp_exp_ge [of x]
        by (intro rnd_exact [where n = 1 and e = "ulp_exp x + 53"]) simp_all
    next
      case 2
      have "rnd x = of_int (- 1) * 2 powi (ulp_exp x + 53)"
        unfolding r 2 by (simp add: power_int_add)
      then show ?thesis
        using ulp_exp_ge [of x]
        by (intro rnd_exact [where n = "- 1" and e = "ulp_exp x + 53"]) simp_all
    qed
  qed
qed

lemma rnd_eqI:
  assumes "b = of_int N * 2 powi ulp_exp x" and "\<bar>x - b\<bar> < 2 powi ulp_exp x / 2" and "x \<noteq> 0"
  shows "rnd x = b"
proof -
  let ?p = "(2::real) powi ulp_exp x"
  have p: "0 < ?p"
    by simp
  have "x / ?p - of_int N = (x - b) / ?p"
    unfolding assms(1) using p by (simp add: field_simps)
  then have "\<bar>x / ?p - of_int N\<bar> = \<bar>x - b\<bar> / ?p"
    using p by simp
  also have "\<dots> < 1 / 2"
    using assms(2) p by (simp add: field_simps)
  finally have "round_half_even (x / ?p) = N"
    by (rule round_half_even_eqI)
  then show ?thesis
    using assms(1,3) by (simp add: rnd_def)
qed

lemma rnd_scale:
  assumes "2 powi (- 1022) \<le> \<bar>x\<bar>" and "2 powi (- 1022) \<le> \<bar>2 powi j * x\<bar>"
  shows "rnd (2 powi j * x) = 2 powi j * rnd x"
proof -
  have "(0::real) < 2 powi (- 1022)"
    by (rule zero_less_power_int) simp
  with assms(1) have nz: "x \<noteq> 0"
    by auto
  let ?k = "\<lfloor>log 2 \<bar>x\<bar>\<rfloor>"
  have abs: "\<bar>2 powi j * x\<bar> = 2 powi j * \<bar>x\<bar>"
    by (simp add: abs_mult)
  have "\<lfloor>log 2 \<bar>2 powi j * x\<bar>\<rfloor> = ?k + j"
  proof (rule floor_log2_eqI)
    show "2 powi (?k + j) \<le> \<bar>2 powi j * x\<bar>"
      unfolding abs using floor_log2_bounds(1) [OF nz]
      by (simp add: power_int_add mult.commute)
    show "\<bar>2 powi j * x\<bar> < 2 powi (?k + j + 1)"
      unfolding abs using floor_log2_bounds(2) [OF nz]
      by (simp add: power_int_add mult.commute mult.left_commute)
  qed
  then have ue: "ulp_exp (2 powi j * x) = ulp_exp x + j"
    by (simp add: ulp_exp_normal [OF assms(1)] ulp_exp_normal [OF assms(2)])
  have "2 powi j * x / 2 powi (ulp_exp x + j) = x / 2 powi ulp_exp x"
    by (simp add: power_int_add)
  then show ?thesis
    using nz unfolding rnd_def ue by (simp add: power_int_add)
qed

lemma rnd_sqrt_square:
  assumes fl: "rnd b = b" and lo: "2 powi (- 511) \<le> b" and hi: "b < 2 ^ 512"
  shows "rnd (sqrt (rnd (b\<^sup>2))) = b"
proof -
  have "(0::real) < 2 powi (- 511)"
    by (rule zero_less_power_int) simp
  with lo have bpos: "0 < b"
    by linarith
  then have bnz: "b \<noteq> 0" and babs: "\<bar>b\<bar> = b"
    by simp_all
  have "(2::real) powi (- 1022) \<le> 2 powi (- 511)"
    by (intro power_int_increasing) simp_all
  with lo have normal_b: "2 powi (- 1022) \<le> \<bar>b\<bar>"
    unfolding babs by linarith
  define k where "k = \<lfloor>log 2 \<bar>b\<bar>\<rfloor>"
  define u where "u = (2::real) powi (k - 52)"
  have ue: "ulp_exp b = k - 52"
    unfolding k_def by (rule ulp_exp_normal [OF normal_b])
  have upos: "0 < u"
    unfolding u_def by simp
  have klo: "2 powi k \<le> b" and khi: "b < 2 powi (k + 1)"
    using floor_log2_bounds [OF bnz] unfolding k_def babs by simp_all
  have "(2::real) powi (- 511) < 2 powi (k + 1)"
    using lo khi by linarith
  then have kge: "- 511 < k + 1"
    by (rule two_powi_less_cancel)
  have pk: "(2::real) powi k = 2 ^ 52 * u" and pk1: "(2::real) powi (k + 1) = 2 ^ 53 * u"
    unfolding u_def by (simp_all add: power_int_diff power_int_add)
  define N where "N = round_half_even (b / u)"
  have bN: "b = of_int N * u"
    using fl bnz unfolding rnd_def ue N_def u_def by simp
  have "2 ^ 52 * u \<le> of_int N * u" and "of_int N * u < 2 ^ 53 * u"
    using klo khi unfolding pk pk1 bN [symmetric] by simp_all
  then have "(2::real) ^ 52 \<le> of_int N" and "real_of_int N < 2 ^ 53"
    using upos by simp_all
  then have "real_of_int (2 ^ 52) \<le> of_int N" and "real_of_int N < real_of_int (2 ^ 53)"
    by simp_all
  then have Nlo: "2 ^ 52 \<le> N" and Nhi: "N < 2 ^ 53"
    by (simp_all only: of_int_le_iff of_int_less_iff)
  show ?thesis
  proof (cases "N = 2 ^ 52")
    case True
    have b: "b = 2 powi k"
      unfolding bN True pk by simp
    have "b\<^sup>2 = of_int 1 * 2 powi (2 * k)"
      unfolding b by (simp add: power2_eq_square power_int_add [symmetric])
    then have "rnd (b\<^sup>2) = b\<^sup>2"
      using kge by (intro rnd_exact [where n = 1 and e = "2 * k"]) simp_all
    then show ?thesis
      using bpos fl by simp
  next
    case False
    with Nlo have "2 ^ 52 + 1 \<le> N"
      by simp
    then have "real_of_int (2 ^ 52 + 1) \<le> of_int N"
      by (simp only: of_int_le_iff)
    then have "(2 ^ 52 + 1) * u \<le> of_int N * u"
      using upos by simp
    then have blo: "2 powi k + u \<le> b"
      unfolding bN pk by (simp add: algebra_simps)
    from Nhi have "N \<le> 2 ^ 53 - 1"
      by simp
    then have "real_of_int N \<le> real_of_int (2 ^ 53 - 1)"
      by (simp only: of_int_le_iff)
    then have "of_int N * u \<le> (2 ^ 53 - 1) * u"
      using upos by simp
    then have bhi: "b \<le> 2 powi (k + 1) - u"
      unfolding bN pk1 by (simp add: algebra_simps)
    define S where "S = rnd (b\<^sup>2)"
    define rt where "rt = sqrt S"
    have "(2 powi (- 511))\<^sup>2 \<le> b\<^sup>2"
      using lo by (intro power_mono) simp_all
    moreover have "((2::real) powi (- 511))\<^sup>2 = 2 powi (- 1022)"
      by (simp add: power2_eq_square power_int_add [symmetric])
    ultimately have normal_x: "2 powi (- 1022) \<le> \<bar>b\<^sup>2\<bar>"
      by simp
    have err: "\<bar>S - b\<^sup>2\<bar> \<le> b\<^sup>2 / 2 ^ 53"
      using rnd_rel_error [OF normal_x] unfolding S_def by simp
    have b2pos: "0 < b\<^sup>2"
      using bpos by simp
    have Sge: "b\<^sup>2 - b\<^sup>2 / 2 ^ 53 \<le> S"
      using err by linarith
    have "b\<^sup>2 * (1 / 2 ^ 53) \<le> b\<^sup>2"
      using b2pos by (intro mult_left_le) simp_all
    then have "b\<^sup>2 / 2 ^ 53 \<le> b\<^sup>2"
      by simp
    then have Spos: "0 \<le> S"
      using Sge by linarith
    have t2: "rt\<^sup>2 = S"
      unfolding rt_def using Spos by simp
    have tpos: "0 \<le> rt"
      unfolding rt_def using Spos by simp
    have "(b * (1 - 1 / 2 ^ 53))\<^sup>2 = b\<^sup>2 * ((1 - 1 / 2 ^ 53) * (1 - 1 / 2 ^ 53))"
      by (simp add: power2_eq_square algebra_simps)
    also have "\<dots> \<le> b\<^sup>2 * (1 - 1 / 2 ^ 53)"
      using b2pos by (intro mult_left_mono) simp_all
    also have "\<dots> \<le> S"
      using Sge by (simp add: algebra_simps)
    finally have tge: "b * (1 - 1 / 2 ^ 53) \<le> rt"
      unfolding rt_def by (rule real_le_rsqrt)
    have "\<bar>rt - b\<bar> * (rt + b) = \<bar>(rt - b) * (rt + b)\<bar>"
      using tpos bpos by (simp add: abs_mult)
    also have "(rt - b) * (rt + b) = S - b\<^sup>2"
      unfolding t2 [symmetric] by (simp add: power2_eq_square algebra_simps)
    finally have prod: "\<bar>rt - b\<bar> * (rt + b) \<le> b\<^sup>2 / 2 ^ 53"
      using err by simp
    have "\<bar>rt - b\<bar> * (b * (2 - 1 / 2 ^ 53)) \<le> \<bar>rt - b\<bar> * (rt + b)"
      using tge by (intro mult_left_mono) (simp_all add: algebra_simps)
    with prod have "\<bar>rt - b\<bar> * (b * (2 - 1 / 2 ^ 53)) \<le> b\<^sup>2 / 2 ^ 53"
      by linarith
    then have "(\<bar>rt - b\<bar> * (2 - 1 / 2 ^ 53)) * b \<le> (b / 2 ^ 53) * b"
      by (simp add: power2_eq_square algebra_simps)
    then have "\<bar>rt - b\<bar> * (2 - 1 / 2 ^ 53) \<le> b / 2 ^ 53"
      using bpos by (simp only: mult_le_cancel_right_pos)
    then have close: "\<bar>rt - b\<bar> < u / 2"
      using bhi upos unfolding pk1 by (simp add: algebra_simps)
    have tk: "2 powi k \<le> \<bar>rt\<bar>" "\<bar>rt\<bar> < 2 powi (k + 1)"
      using close blo bhi upos tpos unfolding pk pk1 by linarith+
    then have "\<lfloor>log 2 \<bar>rt\<bar>\<rfloor> = k"
      by (rule floor_log2_eqI)
    then have uet: "ulp_exp rt = k - 52"
      using kge by (simp add: ulp_exp_def)
    have "(0::real) < 2 powi k"
      by simp
    with tk(1) have tnz: "rt \<noteq> 0"
      by linarith
    have "rnd rt = b"
    proof (rule rnd_eqI [where N = N])
      show "b = of_int N * 2 powi ulp_exp rt"
        unfolding uet u_def [symmetric] by (rule bN)
      show "\<bar>rt - b\<bar> < 2 powi ulp_exp rt / 2"
        unfolding uet u_def [symmetric] by (rule close)
      show "rt \<noteq> 0"
        by (rule tnz)
    qed
    then show ?thesis
      unfolding rt_def S_def .
  qed
qed

lemma two_powi_le_cancel:
  assumes "(2::real) powi a \<le> 2 powi b"
  shows "a \<le> b"
proof (rule ccontr)
  assume "\<not> a \<le> b"
  then have "b < a"
    by simp
  then have "(2::real) powi b < 2 powi a"
    by (intro power_int_strict_increasing) simp_all
  with assms show False
    by simp
qed

lemma round_half_even_nonneg:
  assumes "0 \<le> y"
  shows "0 \<le> round_half_even y"
proof -
  have "0 \<le> \<lfloor>y\<rfloor>"
    using assms by simp
  then show ?thesis
    unfolding round_half_even_def Let_def by auto
qed

lemma rnd_nonneg:
  assumes "0 \<le> x"
  shows "0 \<le> rnd x"
proof (cases "x = 0")
  case True
  then show ?thesis
    by simp
next
  case False
  have "0 \<le> x / 2 powi ulp_exp x"
    using assms by simp
  then have "0 \<le> round_half_even (x / 2 powi ulp_exp x)"
    by (rule round_half_even_nonneg)
  then show ?thesis
    using False by (simp add: rnd_def)
qed

lemma ulp_exp_subnormal:
  assumes "x \<noteq> 0" and "\<bar>x\<bar> < 2 powi (- 1022)"
  shows "ulp_exp x = - 1074"
proof -
  define k where "k = \<lfloor>log 2 \<bar>x\<bar>\<rfloor>"
  have "(2::real) powi k < 2 powi (- 1022)"
    using floor_log2_bounds(1) [OF assms(1)] assms(2) unfolding k_def by linarith
  then have "k < - 1022"
    by (rule two_powi_less_cancel)
  then have "max (k - 52) (- 1074) = - 1074"
    by linarith
  then show ?thesis
    unfolding ulp_exp_def k_def .
qed

lemma round_half_even_half:
  assumes "\<bar>y\<bar> \<le> 1 / 2"
  shows "round_half_even y = 0"
proof -
  consider "\<lfloor>y\<rfloor> = 0" | "\<lfloor>y\<rfloor> = - 1"
    using assms by linarith
  then show ?thesis
  proof cases
    case 1
    then show ?thesis
      using assms unfolding round_half_even_def Let_def by (auto; linarith)
  next
    case 2
    then show ?thesis
      using assms unfolding round_half_even_def Let_def by (auto; linarith)
  qed
qed

lemma rnd_underflow:
  assumes "\<bar>x\<bar> \<le> 2 powi (- 1075)"
  shows "rnd x = 0"
proof (cases "x = 0")
  case True
  then show ?thesis
    by simp
next
  case False
  have "(2::real) powi (- 1075) < 2 powi (- 1022)"
    by (intro power_int_strict_increasing) simp_all
  with assms have "\<bar>x\<bar> < 2 powi (- 1022)"
    by linarith
  then have ue: "ulp_exp x = - 1074"
    by (rule ulp_exp_subnormal [OF False])
  have "(2::real) powi (- 1075) = 2 powi (- 1074) / 2"
    by (simp add: power_int_minus field_simps)
  then have "\<bar>x\<bar> / 2 powi (- 1074) \<le> 1 / 2"
    using assms by (simp add: field_simps)
  then have "\<bar>x / 2 powi (- 1074)\<bar> \<le> 1 / 2"
    by simp
  then have "round_half_even (x / 2 powi (- 1074)) = 0"
    by (rule round_half_even_half)
  then show ?thesis
    using False unfolding rnd_def ue by simp
qed

lemma rnd_abs_less:
  assumes "\<bar>x\<bar> \<le> 2 ^ 1023"
  shows "\<bar>rnd x\<bar> < 2 ^ 1024"
proof (cases "x = 0")
  case True
  then show ?thesis
    by simp
next
  case False
  define k where "k = \<lfloor>log 2 \<bar>x\<bar>\<rfloor>"
  have "(2::real) powi k \<le> 2 powi 1023"
    using floor_log2_bounds(1) [OF False] assms unfolding k_def by simp
  then have "k \<le> 1023"
    by (rule two_powi_le_cancel)
  then have "ulp_exp x \<le> 971"
    unfolding ulp_exp_def k_def [symmetric] by linarith
  then have "(2::real) powi ulp_exp x \<le> 2 powi 971"
    by (intro power_int_increasing) simp_all
  then have "\<bar>rnd x - x\<bar> \<le> 2 ^ 971 / 2"
    using rnd_error [of x] by simp
  then have "\<bar>rnd x\<bar> \<le> 2 ^ 1023 + 2 ^ 971 / 2"
    using assms by linarith
  also have "\<dots> < (2::real) ^ 1024"
    by simp
  finally show ?thesis .
qed

lemma round64_finite:
  assumes "\<bar>x\<bar> \<le> 2 ^ 1023"
  shows "round64 x = Fin (rnd x)"
  using rnd_abs_less [OF assms] by (simp add: round64_def)

lemma round64_0 [simp]: "round64 0 = Fin 0"
  by (simp add: round64_def)

lemma round64_exact:
  assumes "x = of_int n * 2 powi e" and "\<bar>n\<bar> < 2 ^ 53" and "- 1074 \<le> e" and "\<bar>x\<bar> < 2 ^ 1024"
  shows "round64 x = Fin x"
  using rnd_exact [OF assms(1-3)] assms(4) by (simp add: round64_def)

lemma round64_of_int:
  assumes "\<bar>n\<bar> < 2 ^ 53"
  shows "round64 (of_int n) = Fin (of_int n)"
proof (rule round64_exact [where n = n and e = 0])
  have "real_of_int \<bar>n\<bar> < real_of_int (2 ^ 53)"
    using assms by (simp only: of_int_less_iff)
  then show "\<bar>real_of_int n\<bar> < 2 ^ 1024"
    by simp
qed (use assms in simp_all)

lemma round64_in_range:
  assumes "in_range x"
  shows "round64 x = Fin (rnd x)" and "\<bar>rnd x - x\<bar> \<le> \<bar>x\<bar> / 2 ^ 53"
proof -
  from assms consider "x = 0" | "2 powi (- 1022) \<le> \<bar>x\<bar>" "\<bar>x\<bar> \<le> 2 ^ 1023"
    unfolding in_range_def by blast
  then show "round64 x = Fin (rnd x)"
  proof cases
    case 1
    then show ?thesis
      by simp
  next
    case 2
    then show ?thesis
      by (intro round64_finite)
  qed
  from assms consider "x = 0" | "2 powi (- 1022) \<le> \<bar>x\<bar>"
    unfolding in_range_def by blast
  then show "\<bar>rnd x - x\<bar> \<le> \<bar>x\<bar> / 2 ^ 53"
  proof cases
    case 1
    then show ?thesis
      by simp
  next
    case 2
    then show ?thesis
      by (rule rnd_rel_error)
  qed
qed

lemma round64_1 [simp]: "round64 1 = Fin 1"
  using round64_of_int [of 1] by simp

lemma round64_2 [simp]: "round64 2 = Fin 2"
  using round64_of_int [of 2] by simp

lemma round64_3 [simp]: "round64 3 = Fin 3"
  using round64_of_int [of 3] by simp

lemma round64_4 [simp]: "round64 4 = Fin 4"
  using round64_of_int [of 4] by simp

lemma round64_9 [simp]: "round64 9 = Fin 9"
  using round64_of_int [of 9] by simp

lemma pi64_bounds: "3 < pi64" "pi64 < 4"
  by (simp_all add: pi64_def)

section \<open>Properties of the Theim solution in float64 arithmetic\<close>

lemma Theim_f64_unfold:
  assumes "K \<noteq> Fin 0"
  shows "Theim_f64 r r1 b1 Q K =
           Inr (f64_sqrt (f64_add (f64_mul (f64_div (f64_div Q (Fin pi64)) K)
                                            (f64_log (f64_div r r1)))
                                   (f64_power b1 2)))"
proof -
  have "pi64 \<noteq> 0"
    using pi64_bounds(1) by simp
  then show ?thesis
    using assms by (simp add: Theim_f64_def f64_truediv_def)
qed

lemma f64_div_self:
  assumes "a \<noteq> 0"
  shows "f64_div (Fin a) (Fin a) = Fin 1"
  using assms by (simp add: f64_div_def)

lemma f64_log_1: "f64_log (Fin 1) = Fin 0"
  by (simp add: f64_log_def)

lemma f64_mul_0_right: "f64_mul (Fin c) (Fin 0) = Fin 0"
  by (simp add: f64_mul_def)

lemma f64_add_0_left:
  assumes "is_f64 s"
  shows "f64_add (Fin 0) (Fin s) = Fin s"
  using assms by (simp add: f64_add_def round64_def is_f64_def)

lemma is_f64_rnd:
  assumes "\<bar>x\<bar> \<le> 2 ^ 1023"
  shows "is_f64 (rnd x)"
  using rnd_abs_less [OF assms] by (simp add: is_f64_def rnd_idem)

lemma is_f64_pi64: "is_f64 pi64"
proof -
  have "rnd pi64 = pi64"
    by (rule rnd_exact [where n = 884279719003555 and e = "- 48"])
       (simp_all add: pi64_def power_int_minus field_simps)
  then show ?thesis
    using pi64_bounds by (simp add: is_f64_def)
qed

lemma is_f64_two_power:
  assumes "n < 1024"
  shows "is_f64 (2 ^ n)"
proof -
  have "rnd (2 ^ n) = 2 ^ n"
    by (rule rnd_exact [where n = 1 and e = "int n"]) simp_all
  moreover have "(2::real) ^ n < 2 ^ 1024"
    using assms by (intro power_strict_increasing) simp_all
  ultimately show ?thesis
    by (simp add: is_f64_def)
qed

lemma round64_overflow:
  assumes "1024 \<le> n"
  shows "round64 (2 ^ n) = PInf"
proof -
  have "rnd (2 ^ n) = 2 ^ n"
    by (rule rnd_exact [where n = 1 and e = "int n"]) simp_all
  moreover have "(2::real) ^ 1024 \<le> 2 ^ n"
    using assms by (intro power_increasing) simp_all
  ultimately show ?thesis
    by (simp add: round64_def)
qed

lemma round64_underflow:
  assumes "\<bar>x\<bar> \<le> 2 powi (- 1075)"
  shows "round64 x = Fin 0"
  using rnd_underflow [OF assms] by (simp add: round64_def)

lemma is_f64_of_int:
  assumes "\<bar>n\<bar> < 2 ^ 53"
  shows "is_f64 (of_int n)"
proof -
  have "rnd (of_int n) = of_int n"
    by (rule rnd_exact [where n = n and e = 0]) (use assms in simp_all)
  moreover have "real_of_int \<bar>n\<bar> < real_of_int (2 ^ 53)"
    using assms by (simp only: of_int_less_iff)
  then have "\<bar>real_of_int n\<bar> < 2 ^ 1024"
    by simp
  ultimately show ?thesis
    by (simp add: is_f64_def)
qed

lemma f64_mul_power_of_two:
  assumes "is_f64 x" and "in_range x" and "x \<noteq> 0" and "in_range (2 powi j * x)"
  shows "f64_mul (Fin (2 powi j)) (Fin x) = Fin (2 powi j * x)"
proof -
  have nz: "2 powi j * x \<noteq> 0"
    using assms(3) by simp
  have lo: "2 powi (- 1022) \<le> \<bar>x\<bar>"
    using assms(2,3) unfolding in_range_def by blast
  have lo': "2 powi (- 1022) \<le> \<bar>2 powi j * x\<bar>" and hi': "\<bar>2 powi j * x\<bar> \<le> 2 ^ 1023"
    using assms(4) nz unfolding in_range_def by blast+
  have "rnd (2 powi j * x) = 2 powi j * rnd x"
    by (rule rnd_scale [OF lo lo'])
  also have "\<dots> = 2 powi j * x"
    using assms(1) by (simp add: is_f64_def)
  finally have "round64 (2 powi j * x) = Fin (2 powi j * x)"
    using round64_finite [OF hi'] by simp
  then show ?thesis
    by (simp only: f64_mul_def prod.case npfloat.case)
qed

lemma in_range_coarse:
  assumes "1 / 1024 \<le> \<bar>x\<bar>" and "\<bar>x\<bar> \<le> 1024"
  shows "in_range x"
proof -
  have "(2::real) powi (- 1022) \<le> 2 powi (- 10)"
    by (intro power_int_increasing) simp_all
  also have "\<dots> = 1 / 1024"
    by (simp add: power_int_minus field_simps)
  finally have "2 powi (- 1022) \<le> \<bar>x\<bar>"
    using assms(1) by linarith
  moreover have "(1024::real) \<le> 2 ^ 1023"
    by simp
  then have "\<bar>x\<bar> \<le> 2 ^ 1023"
    using assms(2) by linarith
  ultimately show ?thesis
    unfolding in_range_def by blast
qed

lemma rnd_coarse:
  assumes "in_range x"
  shows "\<bar>rnd x - x\<bar> \<le> \<bar>x\<bar> / 1024"
proof -
  have "\<bar>x\<bar> / 2 ^ 53 \<le> \<bar>x\<bar> / 1024"
    by (intro divide_left_mono) simp_all
  with round64_in_range(2) [OF assms] show ?thesis
    by linarith
qed

lemma rnd_interval_pos:
  assumes "lo \<le> x" and "x \<le> hi" and "1 / 1024 \<le> lo" and "hi \<le> 1024"
  shows "round64 x = Fin (rnd x)" and "lo * (1023 / 1024) \<le> rnd x"
    and "rnd x \<le> hi * (1025 / 1024)" and "in_range x"
proof -
  have pos: "0 < x"
    using assms(1,3) by linarith
  show r: "in_range x"
    using assms pos by (intro in_range_coarse) simp_all
  show "round64 x = Fin (rnd x)"
    by (rule round64_in_range(1) [OF r])
  have "\<bar>rnd x - x\<bar> \<le> x / 1024"
    using rnd_coarse [OF r] pos by simp
  then show "lo * (1023 / 1024) \<le> rnd x" and "rnd x \<le> hi * (1025 / 1024)"
    using assms(1,2) by linarith+
qed

lemma rnd_interval_neg:
  assumes "lo \<le> x" and "x \<le> hi" and "- 1024 \<le> lo" and "hi \<le> - (1 / 1024)"
  shows "round64 x = Fin (rnd x)" and "lo * (1025 / 1024) \<le> rnd x"
    and "rnd x \<le> hi * (1023 / 1024)" and "in_range x"
proof -
  have neg: "x < 0"
    using assms(2,4) by linarith
  show r: "in_range x"
    using assms neg by (intro in_range_coarse) simp_all
  show "round64 x = Fin (rnd x)"
    by (rule round64_in_range(1) [OF r])
  have "\<bar>rnd x - x\<bar> \<le> - x / 1024"
    using rnd_coarse [OF r] neg by simp
  then show "lo * (1025 / 1024) \<le> rnd x" and "rnd x \<le> hi * (1023 / 1024)"
    using assms(1,2) by linarith+
qed

lemma round64_half: "round64 (1 / 2) = Fin (1 / 2)"
  by (rule round64_exact [where n = 1 and e = "- 1"]) (simp_all add: power_int_minus)

lemma round64_quarter: "round64 (1 / 4) = Fin (1 / 4)"
  by (rule round64_exact [where n = 1 and e = "- 2"]) (simp_all add: power_int_minus)

lemma rnd_pos:
  assumes "in_range x" and "0 < x"
  shows "0 < rnd x"
proof -
  have "\<bar>rnd x - x\<bar> \<le> x / 1024"
    using rnd_coarse [OF assms(1)] assms(2) by simp
  then show ?thesis
    using assms(2) by linarith
qed

text \<open>
  Claim C1, as it is written, equates the result with the closed form for all positive
  \<open>r\<close>, \<open>r1\<close>, \<open>Q\<close>, \<open>K\<close>. For the smallest positive float \<open>r = 2^(-1074)\<close> and \<open>r1 = 1024\<close>,
  \<open>b1 = 100\<close>, \<open>Q = np.pi\<close>, \<open>K = 1\<close> the quotient \<open>r/r1\<close> underflows to zero, its
  logarithm is minus infinity and the function returns not-a-number, while the argument
  of the closed form is positive and the closed form is a number.
\<close>

theorem Theim_f64_underflow_nan:
  "(0::real) < 2 powi (- 1074) \<and> (0::real) < 1024 \<and> 0 < pi64 \<and> (0::real) < 1
   \<and> is_f64 (2 powi (- 1074))
   \<and> Theim_f64 (Fin (2 powi (- 1074))) (Fin 1024) (Fin 100) (Fin pi64) (Fin 1) = Inr NaN
   \<and> 0 \<le> thickness_arg (2 powi (- 1074)) 1024 100 pi64 1
   \<and> thickness (2 powi (- 1074)) 1024 100 pi64 1 =
       Fin (sqrt (thickness_arg (2 powi (- 1074)) 1024 100 pi64 1))"
proof -
  define m where "m = (2::real) powi (- 1074)"
  have mpos: "0 < m"
    unfolding m_def by (rule zero_less_power_int) simp
  have half: "m / 2 = 2 powi (- 1075)"
    unfolding m_def by (simp add: power_int_minus field_simps)
  have "rnd m = m"
    unfolding m_def by (rule rnd_exact [where n = 1 and e = "- 1074"]) simp_all
  moreover have "m \<le> 2 powi 0"
    unfolding m_def by (intro power_int_increasing) simp_all
  then have "\<bar>m\<bar> < 2 ^ 1024"
    using mpos by simp
  ultimately have fm: "is_f64 m"
    by (simp add: is_f64_def)
  have pnz: "pi64 \<noteq> 0" and ppos: "0 < pi64"
    using pi64_bounds(1) by simp_all
  have q: "f64_div (Fin pi64) (Fin pi64) = Fin 1"
    by (rule f64_div_self [OF pnz])
  have qk: "f64_div (Fin 1) (Fin 1) = Fin 1"
    by (simp add: f64_div_def)
  have "m / 1024 \<le> m / 2"
    using mpos by (intro divide_left_mono) simp_all
  then have "\<bar>m / 1024\<bar> \<le> 2 powi (- 1075)"
    using mpos half by simp
  then have "round64 (m / 1024) = Fin 0"
    by (rule round64_underflow)
  then have d: "f64_div (Fin m) (Fin 1024) = Fin 0"
    by (simp add: f64_div_def)
  have lg: "f64_log (Fin 0) = NInf"
    by (simp add: f64_log_def)
  have mul: "f64_mul (Fin 1) NInf = NInf"
    by (simp add: f64_mul_def)
  have "(100::real)\<^sup>2 = of_int 10000"
    by simp
  then have "round64 (100\<^sup>2) = Fin 10000"
    using round64_of_int [of 10000] by simp
  then have S: "f64_power (Fin 100) 2 = Fin 10000"
    by (simp only: f64_power_def npfloat.case)
  have add: "f64_add NInf (Fin 10000) = NInf"
    by (simp add: f64_add_def)
  have rt: "f64_sqrt NInf = NaN"
    by (simp add: f64_sqrt_def)
  have K: "Fin (1::real) \<noteq> Fin 0"
    by simp
  have run: "Theim_f64 (Fin m) (Fin 1024) (Fin 100) (Fin pi64) (Fin 1) = Inr NaN"
    unfolding Theim_f64_unfold [OF K] q qk d lg mul S add rt ..
  have "m = 2 powr of_int (- 1074)"
    unfolding m_def by (rule two_powr_int [symmetric])
  then have "ln m = of_int (- 1074) * ln 2"
    by (simp only: ln_powr)
  then have ln_m: "ln m = - (1074 * ln 2)"
    by simp
  have "ln (1024::real) = ln (2 ^ 10)"
    by simp
  also have "\<dots> = real 10 * ln 2"
    by (rule ln_realpow)
  finally have ln_k: "ln (1024::real) = 10 * ln 2"
    by simp
  have "ln (m / 1024) = ln m - ln 1024"
    using mpos by (simp add: ln_div)
  then have lnm: "ln (m / 1024) = - (1084 * ln 2)"
    unfolding ln_m ln_k by simp
  have "pi64 / pi \<le> 4 / 2"
    using pi64_bounds(2) pi_ge_two ppos by (intro frac_le) simp_all
  then have c: "pi64 / pi \<le> 2" and c0: "0 \<le> pi64 / pi"
    using ppos by simp_all
  have l: "1084 * ln (2::real) \<le> 1084" and l0: "0 \<le> 1084 * ln (2::real)"
    using ln_2_less_1 by simp_all
  have "pi64 / pi * (1084 * ln 2) \<le> 2 * 1084"
    using c l c0 l0 by (intro mult_mono) simp_all
  then have arg: "0 \<le> thickness_arg m 1024 100 pi64 1"
    unfolding thickness_arg_def lnm by simp
  then have th: "thickness m 1024 100 pi64 1 = Fin (sqrt (thickness_arg m 1024 100 pi64 1))"
    by (simp add: thickness_def)
  have "(0::real) < 1024" and "(0::real) < 1"
    by simp_all
  with mpos ppos fm run arg th show ?thesis
    unfolding m_def by (intro conjI)
qed

text \<open>
  Claim C1, as the code has it. For positive \<open>r\<close>, \<open>r1\<close>, \<open>Q\<close>, \<open>K\<close> and any \<open>b1\<close> such
  that every operation of the function has a result in range, the function returns the
  closed form \<open>sqrt(Q/np.pi/K * ln(r/r1) + b1^2)\<close> evaluated in float64 arithmetic: there
  are the rounded quotient \<open>d\<close> of \<open>r/r1\<close>, its logarithm \<open>L\<close>, the quotients \<open>q\<close> and \<open>qk\<close>,
  the product \<open>P\<close>, the square \<open>S\<close>, the sum \<open>A\<close> and the root \<open>y\<close>, each within a
  relative error of \<open>2^(-53)\<close> of the exact operation on the values before it
  (\<open>2^(-52)\<close> for the logarithm and the square), and the function returns \<open>y\<close>, or
  not-a-number when \<open>A\<close> is negative.
\<close>

theorem Theim_f64_closed_form:
  assumes "0 < r" and "0 < r1" and "0 < Q" and "0 < K"
    and "Theim_in_range r r1 b1 Q K"
  shows "\<exists>d L q qk P S A y.
           \<bar>d - r / r1\<bar> \<le> \<bar>r / r1\<bar> / 2 ^ 53
         \<and> \<bar>L - ln d\<bar> \<le> \<bar>ln d\<bar> / 2 ^ 52
         \<and> \<bar>q - Q / pi64\<bar> \<le> \<bar>Q / pi64\<bar> / 2 ^ 53
         \<and> \<bar>qk - q / K\<bar> \<le> \<bar>q / K\<bar> / 2 ^ 53
         \<and> \<bar>P - qk * L\<bar> \<le> \<bar>qk * L\<bar> / 2 ^ 53
         \<and> \<bar>S - b1\<^sup>2\<bar> \<le> \<bar>b1\<^sup>2\<bar> / 2 ^ 52
         \<and> \<bar>A - (P + S)\<bar> \<le> \<bar>P + S\<bar> / 2 ^ 53
         \<and> \<bar>y - sqrt A\<bar> \<le> \<bar>sqrt A\<bar> / 2 ^ 53
         \<and> Theim_f64 (Fin r) (Fin r1) (Fin b1) (Fin Q) (Fin K) =
               Inr (if A < 0 then NaN else Fin y)"
proof -
  define d where "d = rnd (r / r1)"
  define L where "L = rnd (ln d)"
  define q where "q = rnd (Q / pi64)"
  define qk where "qk = rnd (q / K)"
  define P where "P = rnd (qk * L)"
  define S where "S = rnd (b1\<^sup>2)"
  define A where "A = rnd (P + S)"
  define y where "y = (if A < 0 then sqrt A else rnd (sqrt A))"
  have rng: "in_range (r / r1)" "in_range (ln d)" "in_range (Q / pi64)" "in_range (q / K)"
    "in_range (qk * L)" "in_range (b1\<^sup>2)" "in_range (P + S)" "A < 0 \<or> in_range (sqrt A)"
    using assms(5)
    unfolding Theim_in_range_def Let_def d_def L_def q_def qk_def P_def S_def A_def
    by blast+
  have pnz: "pi64 \<noteq> 0" and Knz: "K \<noteq> 0" and r1nz: "r1 \<noteq> 0"
    using pi64_bounds(1) assms(2,4) by simp_all
  have "0 < r / r1"
    using assms(1,2) by simp
  then have dpos: "0 < d"
    unfolding d_def by (rule rnd_pos [OF rng(1)])
  have wide: "\<bar>x\<bar> / 2 ^ 53 \<le> \<bar>x\<bar> / 2 ^ 52" for x :: real
    by (intro divide_left_mono) simp_all
  have e1: "\<bar>d - r / r1\<bar> \<le> \<bar>r / r1\<bar> / 2 ^ 53"
    unfolding d_def by (rule round64_in_range(2) [OF rng(1)])
  have e2: "\<bar>L - ln d\<bar> \<le> \<bar>ln d\<bar> / 2 ^ 52"
    unfolding L_def using round64_in_range(2) [OF rng(2)] wide [of "ln d"] by linarith
  have e3: "\<bar>q - Q / pi64\<bar> \<le> \<bar>Q / pi64\<bar> / 2 ^ 53"
    unfolding q_def by (rule round64_in_range(2) [OF rng(3)])
  have e4: "\<bar>qk - q / K\<bar> \<le> \<bar>q / K\<bar> / 2 ^ 53"
    unfolding qk_def by (rule round64_in_range(2) [OF rng(4)])
  have e5: "\<bar>P - qk * L\<bar> \<le> \<bar>qk * L\<bar> / 2 ^ 53"
    unfolding P_def by (rule round64_in_range(2) [OF rng(5)])
  have e6: "\<bar>S - b1\<^sup>2\<bar> \<le> \<bar>b1\<^sup>2\<bar> / 2 ^ 52"
    unfolding S_def using round64_in_range(2) [OF rng(6)] wide [of "b1\<^sup>2"] by linarith
  have e7: "\<bar>A - (P + S)\<bar> \<le> \<bar>P + S\<bar> / 2 ^ 53"
    unfolding A_def by (rule round64_in_range(2) [OF rng(7)])
  have e8: "\<bar>y - sqrt A\<bar> \<le> \<bar>sqrt A\<bar> / 2 ^ 53"
  proof (cases "A < 0")
    case True
    then show ?thesis
      by (simp add: y_def)
  next
    case False
    with rng(8) have "in_range (sqrt A)"
      by blast
    then have "\<bar>rnd (sqrt A) - sqrt A\<bar> \<le> \<bar>sqrt A\<bar> / 2 ^ 53"
      by (rule round64_in_range(2))
    then show ?thesis
      using False unfolding y_def by (simp only: if_False)
  qed
  have s1: "f64_div (Fin Q) (Fin pi64) = Fin q"
    using pnz round64_in_range(1) [OF rng(3)] by (simp add: f64_div_def q_def)
  have s2: "f64_div (Fin q) (Fin K) = Fin qk"
    using Knz round64_in_range(1) [OF rng(4)] by (simp add: f64_div_def qk_def)
  have s3: "f64_div (Fin r) (Fin r1) = Fin d"
    using r1nz round64_in_range(1) [OF rng(1)] by (simp add: f64_div_def d_def)
  have s4: "f64_log (Fin d) = Fin L"
    using dpos round64_in_range(1) [OF rng(2)] by (simp add: f64_log_def L_def)
  have s5: "f64_mul (Fin qk) (Fin L) = Fin P"
    using round64_in_range(1) [OF rng(5)] by (simp add: f64_mul_def P_def)
  have s6: "f64_power (Fin b1) 2 = Fin S"
    using round64_in_range(1) [OF rng(6)] by (simp add: f64_power_def S_def)
  have s7: "f64_add (Fin P) (Fin S) = Fin A"
    using round64_in_range(1) [OF rng(7)] by (simp add: f64_add_def A_def)
  have s8: "f64_sqrt (Fin A) = (if A < 0 then NaN else Fin y)"
  proof (cases "A < 0")
    case True
    then show ?thesis
      by (simp add: f64_sqrt_def)
  next
    case False
    with rng(8) have "in_range (sqrt A)"
      by blast
    then show ?thesis
      using False by (simp add: f64_sqrt_def y_def round64_in_range(1))
  qed
  have K: "Fin K \<noteq> Fin 0"
    using Knz by simp
  have run: "Theim_f64 (Fin r) (Fin r1) (Fin b1) (Fin Q) (Fin K) =
      Inr (if A < 0 then NaN else Fin y)"
    unfolding Theim_f64_unfold [OF K] s1 s2 s3 s4 s5 s6 s7 s8 ..
  from e1 e2 e3 e4 e5 e6 e7 e8 run show ?thesis
    by blast
qed

lemma Theim_in_range_example: "Theim_in_range 2 1 3 2 7"
proof -
  have d: "rnd (2 / 1) = 2"
    using rnd_exact [where x = 2 and n = 2 and e = 0] by simp
  have r1: "in_range (2 / 1)"
    by (rule in_range_coarse) simp_all
  define L where "L = rnd (ln 2)"
  have lnb: "0.693 \<le> ln (2::real)" "ln (2::real) \<le> 0.6932"
    using ln2_less_06932 ln2_greater_0693 by simp_all
  have r2: "in_range (ln 2)" and Lb: "0.693 * (1023 / 1024) \<le> L" "L \<le> 0.6932 * (1025 / 1024)"
    unfolding L_def by (rule rnd_interval_pos [OF lnb]; simp)+
  define q where "q = rnd (2 / pi64)"
  have "2 / 4 \<le> 2 / pi64" and "2 / pi64 \<le> 2 / 3"
    using pi64_bounds by (simp_all add: field_simps)
  then have qb0: "1 / 2 \<le> 2 / pi64" "2 / pi64 \<le> 2 / 3"
    by simp_all
  have r3: "in_range (2 / pi64)" and qb: "1 / 2 * (1023 / 1024) \<le> q" "q \<le> 2 / 3 * (1025 / 1024)"
    unfolding q_def by (rule rnd_interval_pos [OF qb0]; simp)+
  define qk where "qk = rnd (q / 7)"
  have kb0: "0.07 \<le> q / 7" "q / 7 \<le> 0.1"
    using qb by simp_all
  have r4: "in_range (q / 7)" and kb: "0.07 * (1023 / 1024) \<le> qk" "qk \<le> 0.1 * (1025 / 1024)"
    unfolding qk_def by (rule rnd_interval_pos [OF kb0]; simp)+
  define P where "P = rnd (qk * L)"
  have "0.06 * 0.69 \<le> qk * L"
    using kb Lb by (intro mult_mono) simp_all
  moreover have "qk * L \<le> 0.11 * 0.7"
    using kb Lb by (intro mult_mono) simp_all
  ultimately have pb0: "0.04 \<le> qk * L" "qk * L \<le> 0.08"
    by simp_all
  have r5: "in_range (qk * L)" and pb: "0.04 * (1023 / 1024) \<le> P" "P \<le> 0.08 * (1025 / 1024)"
    unfolding P_def by (rule rnd_interval_pos [OF pb0]; simp)+
  have S: "rnd (3\<^sup>2) = 9"
    using rnd_exact [where x = 9 and n = 9 and e = 0] by simp
  have r6: "in_range (3\<^sup>2)"
    by (rule in_range_coarse) simp_all
  define A where "A = rnd (P + 9)"
  have ab0: "9 \<le> P + 9" "P + 9 \<le> 10"
    using pb by simp_all
  have r7: "in_range (P + 9)" and ab: "9 * (1023 / 1024) \<le> A" "A \<le> 10 * (1025 / 1024)"
    unfolding A_def by (rule rnd_interval_pos [OF ab0]; simp)+
  have "1 \<le> A" and "A \<le> 4\<^sup>2"
    using ab by simp_all
  then have s1: "1 \<le> sqrt A" and s2: "sqrt A \<le> 4"
    by (simp_all add: real_le_lsqrt)
  have r8: "in_range (sqrt A)"
  proof (rule in_range_coarse)
    show "1 / 1024 \<le> \<bar>sqrt A\<bar>"
      using s1 by linarith
    show "\<bar>sqrt A\<bar> \<le> 1024"
      using s1 s2 by linarith
  qed
  show ?thesis
    unfolding Theim_in_range_def Let_def d S
    unfolding L_def [symmetric] q_def [symmetric]
    unfolding qk_def [symmetric]
    unfolding P_def [symmetric]
    unfolding A_def [symmetric]
    using r1 r2 r3 r4 r5 r6 r7 r8 by (intro conjI disjI2)
qed

theorem Theim_f64_closed_form_witness:
  "(0::real) < 2 \<and> (0::real) < 1 \<and> (0::real) < 2 \<and> (0::real) < 7
   \<and> Theim_in_range 2 1 3 2 7
   \<and> (\<exists>d L q qk P S A y.
           \<bar>d - 2 / 1\<bar> \<le> \<bar>2 / 1\<bar> / 2 ^ 53
         \<and> \<bar>L - ln d\<bar> \<le> \<bar>ln d\<bar> / 2 ^ 52
         \<and> \<bar>q - 2 / pi64\<bar> \<le> \<bar>2 / pi64\<bar> / 2 ^ 53
         \<and> \<bar>qk - q / 7\<bar> \<le> \<bar>q / 7\<bar> / 2 ^ 53
         \<and> \<bar>P - qk * L\<bar> \<le> \<bar>qk * L\<bar> / 2 ^ 53
         \<and> \<bar>S - 3\<^sup>2\<bar> \<le> \<bar>3\<^sup>2\<bar> / 2 ^ 52
         \<and> \<bar>A - (P + S)\<bar> \<le> \<bar>P + S\<bar> / 2 ^ 53
         \<and> \<bar>y - sqrt A\<bar> \<le> \<bar>sqrt A\<bar> / 2 ^ 53
         \<and> Theim_f64 (Fin 2) (Fin 1) (Fin 3) (Fin 2) (Fin 7) =
               Inr (if A < 0 then NaN else Fin y))"
proof -
  have p2: "(0::real) < 2" and p1: "(0::real) < 1" and p7: "(0::real) < 7"
    by simp_all
  show ?thesis
    by (intro conjI p2 p1 p7 Theim_in_range_example
          Theim_f64_closed_form [OF p2 p1 p2 p7 Theim_in_range_example])
qed

text \<open>
  Claim C2, as it is written, puts its condition on the real numbers: \<open>0 < r < r1\<close> and
  \<open>|Q/(pi K) ln(r/r1)| > b1^2\<close>. With \<open>r = 1\<close>, \<open>r1 = 2\<close>, \<open>b1 = 0\<close>, \<open>K = 1\<close> and the
  smallest positive float for \<open>Q\<close> that condition holds, but \<open>Q/np.pi\<close> rounds to zero,
  the computed argument is zero and the function returns zero, not not-a-number.
\<close>

theorem Theim_f64_rounded_argument_not_nan:
  "(0::real) < 1 \<and> (1::real) < 2 \<and> (0::real) < 2 powi (- 1074) \<and> (0::real) < 1
   \<and> (0::real)\<^sup>2 < \<bar>2 powi (- 1074) / (pi * 1) * ln (1 / 2)\<bar>
   \<and> Theim_f64 (Fin 1) (Fin 2) (Fin 0) (Fin (2 powi (- 1074))) (Fin 1) = Inr (Fin 0)"
proof -
  define m where "m = (2::real) powi (- 1074)"
  have mpos: "0 < m"
    unfolding m_def by (rule zero_less_power_int) simp
  have half: "m / 2 = 2 powi (- 1075)"
    unfolding m_def by (simp add: power_int_minus field_simps)
  have pnz: "pi64 \<noteq> 0"
    using pi64_bounds(1) by simp
  have "m / pi64 \<le> m / 2"
    using mpos pi64_bounds(1) by (intro divide_left_mono) simp_all
  then have "\<bar>m / pi64\<bar> \<le> 2 powi (- 1075)"
    using mpos pi64_bounds(1) half by simp
  then have "round64 (m / pi64) = Fin 0"
    by (rule round64_underflow)
  then have q: "f64_div (Fin m) (Fin pi64) = Fin 0"
    using pnz by (simp add: f64_div_def)
  have qk: "f64_div (Fin 0) (Fin 1) = Fin 0"
    by (simp add: f64_div_def)
  have d: "f64_div (Fin 1) (Fin 2) = Fin (1 / 2)"
    by (simp add: f64_div_def round64_half)
  have "ln (1 / 2 :: real) = - ln 2"
    by (simp add: ln_div)
  then have "\<bar>ln (1 / 2 :: real)\<bar> \<le> 2 ^ 1023"
    using ln_2_less_1 by simp
  then have "round64 (ln (1 / 2)) = Fin (rnd (ln (1 / 2)))"
    by (rule round64_finite)
  then have lg: "f64_log (Fin (1 / 2)) = Fin (rnd (ln (1 / 2)))"
    by (simp add: f64_log_def)
  have P: "f64_mul (Fin 0) (Fin (rnd (ln (1 / 2)))) = Fin 0"
    by (simp add: f64_mul_def)
  have S: "f64_power (Fin 0) 2 = Fin 0"
    by (simp add: f64_power_def)
  have A: "f64_add (Fin 0) (Fin 0) = Fin 0"
    by (simp add: f64_add_def)
  have rt: "f64_sqrt (Fin 0) = Fin 0"
    by (simp add: f64_sqrt_def)
  have K: "Fin (1::real) \<noteq> Fin 0"
    by simp
  have run: "Theim_f64 (Fin 1) (Fin 2) (Fin 0) (Fin m) (Fin 1) = Inr (Fin 0)"
    unfolding Theim_f64_unfold [OF K] q qk d lg P S A rt ..
  have neg: "ln (1 / 2 :: real) < 0"
    by simp
  have "0 < m / (pi * 1)"
    using mpos by simp
  then have "m / (pi * 1) * ln (1 / 2) < 0"
    using neg by (rule mult_pos_neg)
  then have "0 < \<bar>m / (pi * 1) * ln (1 / 2)\<bar>"
    by linarith
  then have cond: "(0::real)\<^sup>2 < \<bar>m / (pi * 1) * ln (1 / 2)\<bar>"
    by (simp only: power2_eq_square mult_zero_left)
  have "(0::real) < 1" and "(1::real) < 2"
    by simp_all
  with mpos cond run show ?thesis
    unfolding m_def by (intro conjI)
qed

text \<open>
  Claim C2, as the code has it. When the argument of the square root as the function
  computes it, \<open>Q/np.pi/K*np.log(r/r1) + b1**2\<close> in float64 arithmetic, is negative (a
  negative number or minus infinity) and \<open>K\<close> is not zero, the function returns
  not-a-number as an ordinary value: it does not raise, and the caller receives that
  value.
\<close>

theorem Theim_f64_negative_argument_nan:
  assumes "K \<noteq> Fin 0"
    and "is_negative (f64_add (f64_mul (f64_div (f64_div Q (Fin pi64)) K)
                                        (f64_log (f64_div r r1)))
                               (f64_power b1 2))"
  shows "Theim_f64 r r1 b1 Q K = Inr NaN"
proof -
  define a where "a = f64_add (f64_mul (f64_div (f64_div Q (Fin pi64)) K)
    (f64_log (f64_div r r1))) (f64_power b1 2)"
  have "f64_sqrt a = NaN"
    using assms(2) unfolding a_def [symmetric]
    by (cases a) (simp_all add: is_negative_def f64_sqrt_def)
  then show ?thesis
    unfolding Theim_f64_unfold [OF assms(1)] a_def by simp
qed

theorem Theim_f64_negative_argument_nan_witness:
  "Fin 1 \<noteq> Fin 0
   \<and> is_negative (f64_add (f64_mul (f64_div (f64_div (Fin (4 * pi64)) (Fin pi64)) (Fin 1))
                                      (f64_log (f64_div (Fin 1) (Fin 2))))
                             (f64_power (Fin (1 / 2)) 2))
   \<and> Theim_f64 (Fin 1) (Fin 2) (Fin (1 / 2)) (Fin (4 * pi64)) (Fin 1) = Inr NaN"
proof -
  have pnz: "pi64 \<noteq> 0"
    using pi64_bounds(1) by simp
  have q: "f64_div (Fin (4 * pi64)) (Fin pi64) = Fin 4"
    using pnz by (simp add: f64_div_def)
  have qk: "f64_div (Fin 4) (Fin 1) = Fin 4"
    by (simp add: f64_div_def)
  have d: "f64_div (Fin 1) (Fin 2) = Fin (1 / 2)"
    by (simp add: f64_div_def round64_half)
  define L where "L = rnd (ln (1 / 2))"
  have ln_half: "ln (1 / 2 :: real) = - ln 2"
    by (simp add: ln_div)
  have lnb: "- 0.6932 \<le> ln (1 / 2 :: real)" "ln (1 / 2 :: real) \<le> - 0.693"
    unfolding ln_half using ln2_less_06932 ln2_greater_0693 by simp_all
  have Lr: "round64 (ln (1 / 2)) = Fin L" and Lb: "- 0.6932 * (1025 / 1024) \<le> L"
      "L \<le> - 0.693 * (1023 / 1024)"
    unfolding L_def by (rule rnd_interval_neg [OF lnb]; simp)+
  have lg: "f64_log (Fin (1 / 2)) = Fin L"
    using Lr by (simp add: f64_log_def)
  define P where "P = rnd (4 * L)"
  have Pb0: "- 2.8 \<le> 4 * L" "4 * L \<le> - 2.76"
    using Lb by simp_all
  have Pr: "round64 (4 * L) = Fin P" and Pb: "- 2.8 * (1025 / 1024) \<le> P"
      "P \<le> - 2.76 * (1023 / 1024)"
    unfolding P_def by (rule rnd_interval_neg [OF Pb0]; simp)+
  have mul: "f64_mul (Fin 4) (Fin L) = Fin P"
    using Pr by (simp add: f64_mul_def)
  have sq: "((1::real) / 2)\<^sup>2 = 1 / 4"
    by (simp add: power2_eq_square)
  have "f64_power (Fin (1 / 2)) 2 = round64 ((1 / 2)\<^sup>2)"
    by (simp only: f64_power_def npfloat.case)
  then have S: "f64_power (Fin (1 / 2)) 2 = Fin (1 / 4)"
    unfolding sq round64_quarter .
  define A where "A = rnd (P + 1 / 4)"
  have Ab0: "- 2.6 \<le> P + 1 / 4" "P + 1 / 4 \<le> - 2.5"
    using Pb by simp_all
  have Ar: "round64 (P + 1 / 4) = Fin A" and Ab: "A \<le> - 2.5 * (1023 / 1024)"
    unfolding A_def by (rule rnd_interval_neg [OF Ab0]; simp)+
  have add: "f64_add (Fin P) (Fin (1 / 4)) = Fin A"
    using Ar by (simp add: f64_add_def)
  have "A < 0"
    using Ab by simp
  then have neg: "is_negative (f64_add (f64_mul (f64_div (f64_div (Fin (4 * pi64)) (Fin pi64))
      (Fin 1)) (f64_log (f64_div (Fin 1) (Fin 2)))) (f64_power (Fin (1 / 2)) 2))"
    unfolding q qk d lg mul S add by (simp add: is_negative_def)
  have K: "Fin (1::real) \<noteq> Fin 0"
    by simp
  have "Theim_f64 (Fin 1) (Fin 2) (Fin (1 / 2)) (Fin (4 * pi64)) (Fin 1) = Inr NaN"
    by (rule Theim_f64_negative_argument_nan [OF K neg])
  with K neg show ?thesis
    by (intro conjI)
qed

text \<open>
  Claim C3, as it is written, covers every \<open>b1\<close> that is not negative. For the float
  \<open>b1 = 2^600\<close>, with \<open>r1 = 1\<close>, \<open>Q = np.pi\<close>, \<open>K = 1\<close>, the square \<open>b1**2\<close> overflows and
  the function returns infinity at the reference radius, not \<open>b1\<close>.
\<close>

theorem Theim_f64_reference_overflow:
  "(0::real) < 1 \<and> (0::real) \<le> 2 ^ 600 \<and> 0 < pi64 \<and> is_f64 (2 ^ 600) \<and> is_f64 pi64
   \<and> Theim_f64 (Fin 1) (Fin 1) (Fin (2 ^ 600)) (Fin pi64) (Fin 1) = Inr PInf
   \<and> PInf \<noteq> Fin (2 ^ 600)"
proof -
  have nz: "pi64 \<noteq> 0" and pos: "0 < pi64"
    using pi64_bounds(1) by simp_all
  have p: "((2::real) ^ 600)\<^sup>2 = 2 ^ 1200"
    by (simp add: power_mult [symmetric])
  have "f64_power (Fin (2 ^ 600)) 2 = round64 ((2 ^ 600)\<^sup>2)"
    by (simp only: f64_power_def npfloat.case)
  also have "\<dots> = PInf"
    unfolding p by (rule round64_overflow) simp
  finally have sq: "f64_power (Fin (2 ^ 600)) 2 = PInf" .
  have one: "(1::real) \<noteq> 0" and K: "Fin 1 \<noteq> Fin 0"
    by simp_all
  have "f64_div (Fin 1) (Fin 1) = Fin 1"
    by (rule f64_div_self [OF one])
  then have run: "Theim_f64 (Fin 1) (Fin 1) (Fin (2 ^ 600)) (Fin pi64) (Fin 1) =
      Inr (f64_sqrt (f64_add (Fin 0) PInf))"
    unfolding Theim_f64_unfold [OF K] f64_div_self [OF nz] f64_log_1 f64_mul_0_right sq
    by (simp only: f64_log_1 f64_mul_0_right)
  have "f64_sqrt (f64_add (Fin 0) PInf) = PInf"
    by (simp add: f64_add_def f64_sqrt_def)
  then have "Theim_f64 (Fin 1) (Fin 1) (Fin (2 ^ 600)) (Fin pi64) (Fin 1) = Inr PInf"
    unfolding run by (rule arg_cong)
  moreover have "is_f64 (2 ^ 600)"
    by (rule is_f64_two_power) simp
  moreover have "(0::real) \<le> 2 ^ 600"
    by (rule zero_le_power) simp
  ultimately show ?thesis
    using pos is_f64_pi64 by (intro conjI) simp_all
qed

text \<open>
  Claim C3, as the code has it. At the reference radius the function returns the
  reference thickness exactly, \<open>Theim(r1, r1, b1, Q, K) = b1\<close>, for positive \<open>r1\<close>, \<open>Q\<close>,
  \<open>K\<close> such that \<open>Q/np.pi/K\<close> evaluates to a finite number, and for a float \<open>b1\<close> that is
  zero or lies between \<open>2^(-511)\<close> and \<open>2^511\<close>, so that its square neither overflows
  nor underflows.
\<close>

theorem Theim_f64_at_reference_radius:
  assumes "0 < r1" and "0 < Q" and "0 < K"
    and "f64_div (f64_div (Fin Q) (Fin pi64)) (Fin K) = Fin c"
    and "is_f64 b1"
    and "b1 = 0 \<or> (2 powi (- 511) \<le> b1 \<and> b1 \<le> 2 ^ 511)"
  shows "Theim_f64 (Fin r1) (Fin r1) (Fin b1) (Fin Q) (Fin K) = Inr (Fin b1)"
proof -
  have K: "Fin K \<noteq> Fin 0" and r1: "r1 \<noteq> 0"
    using assms(1,3) by simp_all
  have fl: "rnd b1 = b1" and fin: "\<bar>b1\<bar> < 2 ^ 1024"
    using assms(5) by (simp_all add: is_f64_def)
  have start: "Theim_f64 (Fin r1) (Fin r1) (Fin b1) (Fin Q) (Fin K) =
      Inr (f64_sqrt (f64_add (Fin 0) (f64_power (Fin b1) 2)))"
    unfolding Theim_f64_unfold [OF K] assms(4) f64_div_self [OF r1] f64_log_1 f64_mul_0_right ..
  from assms(6) show ?thesis
  proof
    assume "b1 = 0"
    then show ?thesis
      unfolding start by (simp add: f64_power_def f64_add_def f64_sqrt_def)
  next
    assume rng: "2 powi (- 511) \<le> b1 \<and> b1 \<le> 2 ^ 511"
    have "(0::real) < 2 powi (- 511)"
      by (rule zero_less_power_int) simp
    with rng have bpos: "0 < b1"
      by linarith
    have "b1\<^sup>2 \<le> (2 ^ 511)\<^sup>2"
      using rng bpos by (intro power_mono) simp_all
    also have "\<dots> \<le> (2::real) ^ 1023"
      by (simp add: power_mult [symmetric])
    finally have sq_le: "\<bar>b1\<^sup>2\<bar> \<le> 2 ^ 1023"
      by simp
    define S where "S = rnd (b1\<^sup>2)"
    have pw: "f64_power (Fin b1) 2 = Fin S"
      unfolding S_def by (simp add: f64_power_def round64_finite [OF sq_le])
    have S: "is_f64 S"
      unfolding S_def by (rule is_f64_rnd [OF sq_le])
    have Spos: "0 \<le> S"
      unfolding S_def by (rule rnd_nonneg) simp
    have "(2::real) ^ 511 < 2 ^ 512"
      by simp
    with rng have "b1 < 2 ^ 512"
      by linarith
    with fl rng have root: "rnd (sqrt S) = b1"
      unfolding S_def by (intro rnd_sqrt_square) simp_all
    have "f64_sqrt (Fin S) = Fin b1"
      using Spos fin by (simp add: f64_sqrt_def round64_def root)
    then show ?thesis
      unfolding start pw f64_add_0_left [OF S] by simp
  qed
qed

theorem Theim_f64_at_reference_radius_witness:
  "(0::real) < 5 \<and> (0::real) < 2 \<and> (0::real) < 7
   \<and> f64_div (f64_div (Fin 2) (Fin pi64)) (Fin 7) = Fin (rnd (rnd (2 / pi64) / 7))
   \<and> is_f64 3
   \<and> ((3::real) = 0 \<or> (2 powi (- 511) \<le> (3::real) \<and> (3::real) \<le> 2 ^ 511))
   \<and> Theim_f64 (Fin 5) (Fin 5) (Fin 3) (Fin 2) (Fin 7) = Inr (Fin 3)"
proof -
  have nz: "pi64 \<noteq> 0"
    using pi64_bounds(1) by simp
  have small: "\<bar>2 / pi64\<bar> \<le> 2 ^ 1023"
    by (simp add: pi64_def)
  have q: "round64 (2 / pi64) = Fin (rnd (2 / pi64))"
    by (rule round64_finite [OF small])
  have "\<bar>rnd (2 / pi64)\<bar> < 2 ^ 1024"
    by (rule rnd_abs_less [OF small])
  then have "\<bar>rnd (2 / pi64) / 7\<bar> \<le> 2 ^ 1023"
    by simp
  then have "round64 (rnd (2 / pi64) / 7) = Fin (rnd (rnd (2 / pi64) / 7))"
    by (rule round64_finite)
  then have coeff: "f64_div (f64_div (Fin 2) (Fin pi64)) (Fin 7) = Fin (rnd (rnd (2 / pi64) / 7))"
    using nz q by (simp add: f64_div_def)
  have "rnd 3 = 3"
    by (rule rnd_exact [where n = 3 and e = 0]) simp_all
  then have f3: "is_f64 3"
    by (simp add: is_f64_def)
  have "(2::real) powi (- 511) \<le> 2 powi 0"
    by (intro power_int_increasing) simp_all
  then have lo: "2 powi (- 511) \<le> (3::real)"
    by simp
  have hi: "(3::real) \<le> 2 ^ 511"
    by simp
  have rng: "(3::real) = 0 \<or> (2 powi (- 511) \<le> (3::real) \<and> (3::real) \<le> 2 ^ 511)"
    using lo hi by blast
  show ?thesis
    using Theim_f64_at_reference_radius [OF _ _ _ coeff f3 rng, of 5] coeff f3 rng by simp
qed

text \<open>
  Claim C5, as it is written, covers every positive factor. For \<open>c = 1/2\<close> and
  \<open>Q = K = 2^(-1074)\<close>, the smallest positive float, the products \<open>c*Q\<close> and \<open>c*K\<close> round
  to zero: the scaled call raises \<open>ZeroDivisionError\<close>, the unscaled call returns \<open>3\<close>
  (at \<open>r = 2\<close>, \<open>r1 = 1\<close>, \<open>b1 = 3\<close>).
\<close>

theorem Theim_f64_scaling_underflow:
  "(0::real) < 1 / 2 \<and> (0::real) < 2 powi (- 1074) \<and> is_f64 (2 powi (- 1074))
   \<and> f64_mul (Fin (1 / 2)) (Fin (2 powi (- 1074))) = Fin 0
   \<and> Theim_f64 (Fin 2) (Fin 1) (Fin 3) (Fin 0) (Fin 0) = Inl ZeroDivisionError
   \<and> Theim_f64 (Fin 2) (Fin 1) (Fin 3) (Fin (2 powi (- 1074))) (Fin (2 powi (- 1074))) =
       Inr (Fin 3)"
proof -
  define m where "m = (2::real) powi (- 1074)"
  have mpos: "0 < m"
    unfolding m_def by (rule zero_less_power_int) simp
  have half: "m / 2 = 2 powi (- 1075)"
    unfolding m_def by (simp add: power_int_minus field_simps)
  have "rnd m = m"
    unfolding m_def by (rule rnd_exact [where n = 1 and e = "- 1074"]) simp_all
  moreover have "m \<le> 2 powi 0"
    unfolding m_def by (intro power_int_increasing) simp_all
  then have "\<bar>m\<bar> < 2 ^ 1024"
    using mpos by simp
  ultimately have fm: "is_f64 m"
    by (simp add: is_f64_def)
  have "\<bar>1 / 2 * m\<bar> \<le> 2 powi (- 1075)"
    using mpos half by simp
  then have "round64 (1 / 2 * m) = Fin 0"
    by (rule round64_underflow)
  then have scaled: "f64_mul (Fin (1 / 2)) (Fin m) = Fin 0"
    by (simp only: f64_mul_def prod.case npfloat.case)
  have pnz: "pi64 \<noteq> 0"
    using pi64_bounds(1) by simp
  have raise: "Theim_f64 (Fin 2) (Fin 1) (Fin 3) (Fin 0) (Fin 0) = Inl ZeroDivisionError"
    using pnz by (simp add: Theim_f64_def f64_truediv_def f64_div_def)
  have "m / pi64 \<le> m / 2"
    using mpos pi64_bounds(1) by (intro divide_left_mono) simp_all
  then have "\<bar>m / pi64\<bar> \<le> 2 powi (- 1075)"
    using mpos pi64_bounds(1) half by simp
  then have "round64 (m / pi64) = Fin 0"
    by (rule round64_underflow)
  then have q: "f64_div (Fin m) (Fin pi64) = Fin 0"
    using pnz by (simp add: f64_div_def)
  have qk: "f64_div (Fin 0) (Fin m) = Fin 0"
    using mpos by (simp add: f64_div_def)
  have d: "f64_div (Fin 2) (Fin 1) = Fin 2"
    by (simp add: f64_div_def)
  have "\<bar>ln (2::real)\<bar> \<le> 2 ^ 1023"
    using ln_2_less_1 by simp
  then have "round64 (ln 2) = Fin (rnd (ln 2))"
    by (rule round64_finite)
  then have lg: "f64_log (Fin 2) = Fin (rnd (ln 2))"
    by (simp add: f64_log_def)
  have P: "f64_mul (Fin 0) (Fin (rnd (ln 2))) = Fin 0"
    by (simp add: f64_mul_def)
  have S: "f64_power (Fin 3) 2 = Fin 9"
    by (simp add: f64_power_def)
  have A: "f64_add (Fin 0) (Fin 9) = Fin 9"
    by (simp add: f64_add_def)
  have "sqrt 9 = sqrt (3\<^sup>2)"
    by simp
  then have "sqrt 9 = 3"
    unfolding real_sqrt_abs by simp
  then have rt: "f64_sqrt (Fin 9) = Fin 3"
    by (simp add: f64_sqrt_def)
  have K: "Fin m \<noteq> Fin 0"
    using mpos by simp
  have ok: "Theim_f64 (Fin 2) (Fin 1) (Fin 3) (Fin m) (Fin m) = Inr (Fin 3)"
    unfolding Theim_f64_unfold [OF K] q qk d lg P S A rt ..
  show ?thesis
    using mpos fm scaled raise ok unfolding m_def by simp
qed

text \<open>
  Claim C5, as the code has it. When the factor \<open>c\<close> is a power of two and \<open>Q\<close>, \<open>K\<close>,
  \<open>c*Q\<close>, \<open>c*K\<close>, \<open>Q/np.pi\<close> and \<open>c*Q/np.pi\<close> are in range, scaling the floats \<open>Q\<close> and
  \<open>K\<close> by \<open>c\<close> leaves the result unchanged, whatever \<open>r\<close>, \<open>r1\<close> and \<open>b1\<close> are: the two calls
  return the same number, the same infinity, or not-a-number both.
\<close>

theorem Theim_f64_scale_power_of_two:
  assumes "c = 2 powi j" and "0 < Q" and "0 < K" and "is_f64 Q" and "is_f64 K"
    and "in_range Q" and "in_range (c * Q)" and "in_range K" and "in_range (c * K)"
    and "in_range (Q / pi64)" and "in_range (c * (Q / pi64))"
  shows "Theim_f64 r r1 b1 (f64_mul (Fin c) (Fin Q)) (f64_mul (Fin c) (Fin K)) =
         Theim_f64 r r1 b1 (Fin Q) (Fin K)"
proof -
  have cpos: "0 < c"
    unfolding assms(1) by simp
  have Qnz: "Q \<noteq> 0" and Knz: "K \<noteq> 0" and cKnz: "c * K \<noteq> 0" and pnz: "pi64 \<noteq> 0"
    using assms(2,3) cpos pi64_bounds(1) by simp_all
  have cQ: "f64_mul (Fin c) (Fin Q) = Fin (c * Q)"
    using assms(4,6,7) Qnz unfolding assms(1) by (intro f64_mul_power_of_two)
  have cK: "f64_mul (Fin c) (Fin K) = Fin (c * K)"
    using assms(5,8,9) Knz unfolding assms(1) by (intro f64_mul_power_of_two)
  have qnz: "Q / pi64 \<noteq> 0"
    using Qnz pnz by simp
  have lo: "2 powi (- 1022) \<le> \<bar>Q / pi64\<bar>"
    using assms(10) qnz unfolding in_range_def by blast
  have lo': "2 powi (- 1022) \<le> \<bar>2 powi j * (Q / pi64)\<bar>"
    using assms(11) qnz cpos unfolding in_range_def assms(1) by auto
  have scale: "rnd (c * (Q / pi64)) = c * rnd (Q / pi64)"
    unfolding assms(1) by (rule rnd_scale [OF lo lo'])
  have "f64_div (Fin (c * Q)) (Fin pi64) = round64 (c * (Q / pi64))"
    using pnz by (simp add: f64_div_def)
  also have "\<dots> = Fin (c * rnd (Q / pi64))"
    unfolding round64_in_range(1) [OF assms(11)] scale ..
  finally have q': "f64_div (Fin (c * Q)) (Fin pi64) = Fin (c * rnd (Q / pi64))" .
  have "f64_div (Fin Q) (Fin pi64) = round64 (Q / pi64)"
    using pnz by (simp add: f64_div_def)
  then have q: "f64_div (Fin Q) (Fin pi64) = Fin (rnd (Q / pi64))"
    unfolding round64_in_range(1) [OF assms(10)] .
  have "c * rnd (Q / pi64) / (c * K) = rnd (Q / pi64) / K"
    using cpos by simp
  then have "f64_div (Fin (c * rnd (Q / pi64))) (Fin (c * K)) =
      f64_div (Fin (rnd (Q / pi64))) (Fin K)"
    using cKnz Knz by (simp add: f64_div_def)
  then have coeff: "f64_div (f64_div (Fin (c * Q)) (Fin pi64)) (Fin (c * K)) =
      f64_div (f64_div (Fin Q) (Fin pi64)) (Fin K)"
    unfolding q q' .
  have K: "Fin K \<noteq> Fin 0" and cK0: "Fin (c * K) \<noteq> Fin 0"
    using Knz cKnz by simp_all
  show ?thesis
    unfolding cQ cK Theim_f64_unfold [OF K] Theim_f64_unfold [OF cK0] coeff ..
qed

theorem Theim_f64_scale_power_of_two_witness:
  "(4::real) = 2 powi 2 \<and> (0::real) < 2 \<and> (0::real) < 7 \<and> is_f64 2 \<and> is_f64 7
   \<and> in_range 2 \<and> in_range (4 * 2) \<and> in_range 7 \<and> in_range (4 * 7)
   \<and> in_range (2 / pi64) \<and> in_range (4 * (2 / pi64))
   \<and> Theim_f64 (Fin 2) (Fin 1) (Fin 3) (f64_mul (Fin 4) (Fin 2)) (f64_mul (Fin 4) (Fin 7)) =
       Theim_f64 (Fin 2) (Fin 1) (Fin 3) (Fin 2) (Fin 7)"
proof -
  have c: "(4::real) = 2 powi 2"
    by simp
  have f2: "is_f64 2" and f7: "is_f64 7"
    using is_f64_of_int [of 2] is_f64_of_int [of 7] by simp_all
  have r: "in_range 2" "in_range (4 * 2)" "in_range 7" "in_range (4 * 7)"
    by (rule in_range_coarse; simp)+
  have q: "in_range (2 / pi64)" "in_range (4 * (2 / pi64))"
    by (rule in_range_coarse; simp add: pi64_def)+
  have p2: "(0::real) < 2" and p7: "(0::real) < 7"
    by simp_all
  have eq: "Theim_f64 (Fin 2) (Fin 1) (Fin 3) (f64_mul (Fin 4) (Fin 2)) (f64_mul (Fin 4) (Fin 7)) =
      Theim_f64 (Fin 2) (Fin 1) (Fin 3) (Fin 2) (Fin 7)"
    by (rule Theim_f64_scale_power_of_two [OF c p2 p7 f2 f7 r q])
  show ?thesis
    by (intro conjI c p2 p7 f2 f7 r q eq)
qed

section \<open>Properties of the cells\<close>

text \<open>
  Claim C10. After the loading cell the time vector \<open>t\<close> is the time column of the file
  loaded last, \<open>Well_drawdown.csv\<close>. The time columns of the three piezometer files are
  bound to the same name and replaced: the result of the cell is the same whatever they
  hold, so a disagreement between the time grids of the files is never noticed.
\<close>

theorem load_drawdown_time_vector:
  "t (load_drawdown (t4, p4) (t3, p3) (t1, p1) (tw, w)) = tw
   \<and> load_drawdown (t4, p4) (t3, p3) (t1, p1) (tw, w) =
       load_drawdown (t4', p4) (t3', p3) (t1', p1) (tw, w)"
  by (simp add: load_drawdown_def)

lemma f64_sub_self: "f64_sub x x = (if is_finite x then Fin 0 else NaN)"
  by (cases x) (simp_all add: f64_sub_def f64_add_def is_finite_def)

lemma loadtxt_unpack_rows:
  assumes "2 \<le> length rows"
  shows "loadtxt_unpack rows = Inr (Array (map fst rows), Array (map snd rows))"
proof -
  obtain r1 r2 rest where "rows = r1 # r2 # rest"
    using assms by (cases rows; cases "tl rows") auto
  then show ?thesis
    by (simp add: loadtxt_unpack_def split: prod.splits)
qed

lemma drawdown_array:
  assumes "h \<noteq> []"
  shows "drawdown (Array h) = Inr (Array (map (\<lambda>x. f64_sub x (h ! 0)) h))"
  using assms by (cases h) (simp_all add: drawdown_def)

lemma drawdown_first:
  assumes "h \<noteq> []"
  shows "map (\<lambda>x. f64_sub x (h ! 0)) h ! 0 = (if is_finite (h ! 0) then Fin 0 else NaN)"
  using assms by (cases h) (simp_all add: f64_sub_self)

lemma heads_of_rows:
  assumes "2 \<le> length rows"
  shows "map snd rows \<noteq> []" and "map snd rows ! 0 = snd (rows ! 0)"
  using assms by (cases rows; simp)+

text \<open>
  A file of one data row is loaded as two scalars, and the conversion cell raises
  \<open>IndexError\<close> at \<open>h4d[0]\<close>.
\<close>

lemma one_row_file_raises:
  assumes "loadtxt_unpack f3 = Inr p3" and "loadtxt_unpack f1 = Inr p1"
    and "loadtxt_unpack fw = Inr pw"
  shows "\<exists>s. load_cell [(a, b)] f3 f1 fw = Inr s \<and> h4d s = Scalar b
           \<and> to_drawdown s = Inl IndexError"
  using assms
  by (cases p3; cases p1; cases pw)
     (simp add: load_cell_def loadtxt_unpack_def load_drawdown_def to_drawdown_def drawdown_def)

text \<open>A file with no data row makes the loading cell raise \<open>ValueError\<close>.\<close>

lemma header_only_file_raises: "load_cell [] f3 f1 fw = Inl ValueError"
  by (simp add: load_cell_def loadtxt_unpack_def)

text \<open>
  Claim C6, as the code has it. When each of the four files has two data rows or more,
  the loading cell and the conversion cell succeed and every head series \<open>h\<close> is replaced
  by \<open>h - h[0]\<close>, element by element. The first element of a converted series is exactly
  zero when the first reading of that series is a finite number, and not-a-number when
  the first reading is not-a-number or an infinity.
\<close>

theorem to_drawdown_zero_referenced:
  assumes "2 \<le> length f4" and "2 \<le> length f3" and "2 \<le> length f1" and "2 \<le> length fw"
  shows "\<exists>s s'. load_cell f4 f3 f1 fw = Inr s \<and> to_drawdown s = Inr s'
           \<and> h4d s' = Array (map (\<lambda>x. f64_sub x (snd (f4 ! 0))) (map snd f4))
           \<and> h3d s' = Array (map (\<lambda>x. f64_sub x (snd (f3 ! 0))) (map snd f3))
           \<and> h1d s' = Array (map (\<lambda>x. f64_sub x (snd (f1 ! 0))) (map snd f1))
           \<and> wd s' = Array (map (\<lambda>x. f64_sub x (snd (fw ! 0))) (map snd fw))
           \<and> map (\<lambda>x. f64_sub x (snd (f4 ! 0))) (map snd f4) ! 0 =
               (if is_finite (snd (f4 ! 0)) then Fin 0 else NaN)
           \<and> map (\<lambda>x. f64_sub x (snd (f3 ! 0))) (map snd f3) ! 0 =
               (if is_finite (snd (f3 ! 0)) then Fin 0 else NaN)
           \<and> map (\<lambda>x. f64_sub x (snd (f1 ! 0))) (map snd f1) ! 0 =
               (if is_finite (snd (f1 ! 0)) then Fin 0 else NaN)
           \<and> map (\<lambda>x. f64_sub x (snd (fw ! 0))) (map snd fw) ! 0 =
               (if is_finite (snd (fw ! 0)) then Fin 0 else NaN)"
proof -
  let ?d4 = "map (\<lambda>x. f64_sub x (snd (f4 ! 0))) (map snd f4)"
  let ?d3 = "map (\<lambda>x. f64_sub x (snd (f3 ! 0))) (map snd f3)"
  let ?d1 = "map (\<lambda>x. f64_sub x (snd (f1 ! 0))) (map snd f1)"
  let ?dw = "map (\<lambda>x. f64_sub x (snd (fw ! 0))) (map snd fw)"
  let ?s = "\<lparr>t = Array (map fst fw), h4d = Array (map snd f4), h3d = Array (map snd f3),
             h1d = Array (map snd f1), wd = Array (map snd fw)\<rparr>"
  let ?s' = "?s\<lparr>h4d := Array ?d4, h3d := Array ?d3, h1d := Array ?d1, wd := Array ?dw\<rparr>"
  have load: "load_cell f4 f3 f1 fw = Inr ?s"
    unfolding load_cell_def
    by (simp add: loadtxt_unpack_rows [OF assms(1)] loadtxt_unpack_rows [OF assms(2)]
          loadtxt_unpack_rows [OF assms(3)] loadtxt_unpack_rows [OF assms(4)] load_drawdown_def)
  have c4: "drawdown (Array (map snd f4)) = Inr (Array ?d4)"
    using drawdown_array [OF heads_of_rows(1) [OF assms(1)]]
    unfolding heads_of_rows(2) [OF assms(1)] .
  have c3: "drawdown (Array (map snd f3)) = Inr (Array ?d3)"
    using drawdown_array [OF heads_of_rows(1) [OF assms(2)]]
    unfolding heads_of_rows(2) [OF assms(2)] .
  have c1: "drawdown (Array (map snd f1)) = Inr (Array ?d1)"
    using drawdown_array [OF heads_of_rows(1) [OF assms(3)]]
    unfolding heads_of_rows(2) [OF assms(3)] .
  have cw: "drawdown (Array (map snd fw)) = Inr (Array ?dw)"
    using drawdown_array [OF heads_of_rows(1) [OF assms(4)]]
    unfolding heads_of_rows(2) [OF assms(4)] .
  have conv: "to_drawdown ?s = Inr ?s'"
    unfolding to_drawdown_def by (simp add: c4 c3 c1 cw)
  have z4: "?d4 ! 0 = (if is_finite (snd (f4 ! 0)) then Fin 0 else NaN)"
    using drawdown_first [OF heads_of_rows(1) [OF assms(1)]]
    unfolding heads_of_rows(2) [OF assms(1)] .
  have z3: "?d3 ! 0 = (if is_finite (snd (f3 ! 0)) then Fin 0 else NaN)"
    using drawdown_first [OF heads_of_rows(1) [OF assms(2)]]
    unfolding heads_of_rows(2) [OF assms(2)] .
  have z1: "?d1 ! 0 = (if is_finite (snd (f1 ! 0)) then Fin 0 else NaN)"
    using drawdown_first [OF heads_of_rows(1) [OF assms(3)]]
    unfolding heads_of_rows(2) [OF assms(3)] .
  have zw: "?dw ! 0 = (if is_finite (snd (fw ! 0)) then Fin 0 else NaN)"
    using drawdown_first [OF heads_of_rows(1) [OF assms(4)]]
    unfolding heads_of_rows(2) [OF assms(4)] .
  have fields: "h4d ?s' = Array ?d4" "h3d ?s' = Array ?d3" "h1d ?s' = Array ?d1"
    "wd ?s' = Array ?dw"
    by simp_all
  show ?thesis
    by (rule exI [of _ ?s], rule exI [of _ ?s']) (intro conjI load conv fields z4 z3 z1 zw)
qed

theorem to_drawdown_zero_referenced_witness:
  "2 \<le> length [(Fin 0, Fin 5), (Fin 1, Fin 7)] \<and> 2 \<le> length [(Fin 0, Fin 1), (Fin 1, Fin 4)]
   \<and> 2 \<le> length [(Fin 0, Fin 2), (Fin 1, Fin 2)] \<and> 2 \<le> length [(Fin 0, NaN), (Fin 1, Fin 3)]
   \<and> (\<exists>s s'. load_cell [(Fin 0, Fin 5), (Fin 1, Fin 7)] [(Fin 0, Fin 1), (Fin 1, Fin 4)]
                 [(Fin 0, Fin 2), (Fin 1, Fin 2)] [(Fin 0, NaN), (Fin 1, Fin 3)] = Inr s
          \<and> to_drawdown s = Inr s'
          \<and> h4d s' = Array [Fin 0, Fin 2] \<and> h3d s' = Array [Fin 0, Fin 3]
          \<and> h1d s' = Array [Fin 0, Fin 0] \<and> wd s' = Array [NaN, NaN])"
  using to_drawdown_zero_referenced
    [of "[(Fin 0, Fin 5), (Fin 1, Fin 7)]" "[(Fin 0, Fin 1), (Fin 1, Fin 4)]"
        "[(Fin 0, Fin 2), (Fin 1, Fin 2)]" "[(Fin 0, NaN), (Fin 1, Fin 3)]"]
  by (simp add: f64_sub_def f64_add_def, blast)

text \<open>
  Claim C6, as it is written, promises a zero first element for every non-empty series.
  A file whose first head is the text \<open>nan\<close> loads as a non-empty series, and the first
  element of its conversion is not-a-number.
\<close>

theorem drawdown_nan_first_reading:
  "loadtxt_unpack [(Fin 0, NaN), (Fin 1, Fin 1)] = Inr (Array [Fin 0, Fin 1], Array [NaN, Fin 1])
   \<and> drawdown (Array [NaN, Fin 1]) = Inr (Array [NaN, NaN])
   \<and> [NaN, NaN] ! 0 \<noteq> Fin 0"
  by (simp add: loadtxt_unpack_def drawdown_def f64_sub_def f64_add_def)

text \<open>
  Claim C9. The two numbers printed for a hydraulic conductivity \<open>K\<close> are \<open>K\<close> times
  \<open>1/60\<close> and \<open>K\<close> times \<open>60 * 24\<close>, in that order.
\<close>

theorem print_K_factors:
  "map snd (print_K (Fin k)) = [Fin (k * (1 / 60)), Fin (k * (60 * 24))]"
  by (simp add: print_K_def)

lemma linspace_0_30_nth:
  assumes "i < 50"
  shows "linspace 0 30 50 ! i = Fin (real i * (30 / 49))"
proof (cases "i = 49")
  case True
  then show ?thesis
    by (simp add: linspace_def)
next
  case False
  with assms show ?thesis
    by (simp add: linspace_def)
qed

lemma length_linspace: "length (linspace start stop num) = num"
  by (simp add: linspace_def Let_def)

lemma ra_nth:
  assumes "i < 50"
  shows "ra ! i = (if i = 0 then Fin 0.005 else Fin (real i * (30 / 49)))"
  using assms by (simp add: ra_def length_linspace linspace_0_30_nth nth_list_update)

lemma ra_positive:
  assumes "r \<in> set ra"
  obtains x where "r = Fin x" and "0 < x"
proof -
  have len: "length ra = 50"
    by (simp add: ra_def length_linspace)
  from assms obtain i where i: "i < 50" "r = ra ! i"
    unfolding in_set_conv_nth len by blast
  show thesis
  proof (cases "i = 0")
    case True
    with i have "r = Fin 0.005"
      by (simp add: ra_nth)
    moreover have "(0::real) < 0.005"
      by simp
    ultimately show thesis
      by (rule that)
  next
    case False
    with i have "r = Fin (real i * (30 / 49))" and "0 < real i * (30 / 49)"
      by (simp_all add: ra_nth)
    then show thesis
      by (rule that)
  qed
qed

text \<open>
  Claim C8. The radius sweep has 50 points. The first point of \<open>np.linspace(0, 30)\<close> is
  zero and is its only zero; the sweep is that array with the first point replaced by
  \<open>0.005\<close>. So every radius of the sweep is a positive finite number, and for a positive
  reference radius \<open>r1\<close> the logarithm of \<open>r/r1\<close> is a finite number at every radius \<open>r\<close>
  of the sweep.
\<close>

theorem ra_no_zero_radius:
  "length ra = 50
   \<and> ra = (linspace 0 30 50)[0 := Fin 0.005]
   \<and> linspace 0 30 50 ! 0 = Fin 0
   \<and> (\<forall>i < 50. 0 < i \<longrightarrow> linspace 0 30 50 ! i \<noteq> Fin 0)
   \<and> (\<forall>r \<in> set ra. \<exists>x. r = Fin x \<and> 0 < x)
   \<and> (\<forall>r \<in> set ra. \<forall>r1. 0 < r1 \<longrightarrow> is_finite (np_log (np_div r (Fin r1))))"
proof (intro conjI ballI allI impI)
  show "length ra = 50"
    by (simp add: ra_def length_linspace)
  show "ra = (linspace 0 30 50)[0 := Fin 0.005]"
    by (rule ra_def)
  show "linspace 0 30 50 ! 0 = Fin 0"
    by (simp add: linspace_0_30_nth)
  show "linspace 0 30 50 ! i \<noteq> Fin 0" if "i < 50" and "0 < i" for i
    using that by (simp add: linspace_0_30_nth)
  show "\<exists>x. r = Fin x \<and> 0 < x" if "r \<in> set ra" for r
    using that by (rule ra_positive) blast
  show "is_finite (np_log (np_div r (Fin r1)))" if "r \<in> set ra" and "0 < r1" for r r1
    using that(1)
  proof (rule ra_positive)
    fix x
    assume "r = Fin x" and "0 < x"
    with that(2) show ?thesis
      by (simp add: is_finite_def)
  qed
qed

theorem ra_no_zero_radius_witness:
  "(1::nat) < 50 \<and> (0::nat) < 1 \<and> linspace 0 30 50 ! 1 \<noteq> Fin 0
   \<and> ra ! 1 \<in> set ra \<and> ra ! 1 = Fin (30 / 49) \<and> (0::real) < 30 / 49
   \<and> (0::real) < 5 \<and> is_finite (np_log (np_div (ra ! 1) (Fin 5)))"
proof -
  have len: "length ra = 50"
    using ra_no_zero_radius by blast
  have mem: "ra ! 1 \<in> set ra"
    using len by (simp add: nth_mem)
  have val: "ra ! 1 = Fin (30 / 49)"
    by (simp add: ra_nth)
  have nz: "linspace 0 30 50 ! 1 \<noteq> Fin 0"
    using ra_no_zero_radius by simp
  have fin: "is_finite (np_log (np_div (ra ! 1) (Fin 5)))"
    using ra_no_zero_radius mem by simp
  show ?thesis
    using mem val nz fin by simp
qed

section \<open>The worked example\<close>

lemma example_arg_bounds: "9.61535\<^sup>2 \<le> example_arg" "example_arg < 9.61545\<^sup>2"
proof -
  have eq: "example_arg = 10 * ln 2 / pi + 90.25"
    by (simp add: example_arg_def power2_eq_square)
  have "10 * 0.693 / 3.142 \<le> 10 * ln 2 / pi"
    using ln2_greater_0693 pi_le_3142 pi_gt_zero
    by (intro frac_le) simp_all
  moreover have "(9.61535::real)\<^sup>2 \<le> 10 * 0.693 / 3.142 + 90.25"
    by (simp add: power2_eq_square)
  ultimately show "9.61535\<^sup>2 \<le> example_arg"
    unfolding eq by linarith
  have "10 * ln 2 / pi \<le> 10 * 0.6932 / 3.1412"
    using ln2_less_06932 pi_gt_31412 by (intro frac_le) simp_all
  moreover have "10 * 0.6932 / 3.1412 + 90.25 < (9.61545::real)\<^sup>2"
    by (simp add: power2_eq_square)
  ultimately show "example_arg < 9.61545\<^sup>2"
    unfolding eq by linarith
qed

lemma example_sqrt_bounds: "9.61535 \<le> sqrt example_arg" "sqrt example_arg < 9.61545"
proof -
  show "9.61535 \<le> sqrt example_arg"
    by (rule real_le_rsqrt) (rule example_arg_bounds(1))
  show "sqrt example_arg < 9.61545"
  proof (rule real_less_lsqrt)
    show "(0::real) \<le> 9.61545"
      by simp
    show "example_arg < 9.61545\<^sup>2"
      by (rule example_arg_bounds(2))
  qed
qed

lemma Theim_example_value:
  "Theim (Fin 10) (Fin 5) (Fin 9.5) (Fin 0.01) (Fin 0.001) = Inr (Fin (sqrt example_arg))"
proof -
  have pos: "(5::real) \<noteq> 0" "(0::real) < 10 / 5" "(0.001::real) \<noteq> 0"
    by simp_all
  have eq: "0.01 / pi / 0.001 * ln (10 / 5) + 9.5\<^sup>2 = example_arg"
    by (simp add: example_arg_def)
  have "0 \<le> example_arg"
    using example_arg_bounds(1) by (rule order_trans [rotated]) simp
  then show ?thesis
    unfolding Theim_finite [OF pos] eq by simp
qed

text \<open>
  Claim C7, as the code has it. With \<open>r1 = 5\<close>, \<open>b1 = 9.5\<close>, \<open>Q = 0.01\<close>, \<open>K = 0.001\<close> the
  function returns \<open>9.5\<close> at \<open>r = 5\<close>, and at \<open>r = 10\<close> it returns
  \<open>sqrt(0.01/(pi 0.001) ln 2 + 9.5^2)\<close>, which lies in \<open>[9.61535, 9.61545)\<close>: it is
  \<open>9.6154\<close> to four decimal places.
\<close>

theorem Theim_worked_example:
  "Theim (Fin 5) (Fin 5) (Fin 9.5) (Fin 0.01) (Fin 0.001) = Inr (Fin 9.5)
   \<and> Theim (Fin 10) (Fin 5) (Fin 9.5) (Fin 0.01) (Fin 0.001) =
       Inr (Fin (sqrt (0.01 / (pi * 0.001) * ln 2 + 9.5\<^sup>2)))
   \<and> 9.61535 \<le> sqrt (0.01 / (pi * 0.001) * ln 2 + 9.5\<^sup>2)
   \<and> sqrt (0.01 / (pi * 0.001) * ln 2 + 9.5\<^sup>2) < 9.61545"
proof -
  have pos: "(5::real) \<noteq> 0" "(0::real) < 5 / 5" "(0.001::real) \<noteq> 0"
    by simp_all
  have "Theim (Fin 5) (Fin 5) (Fin 9.5) (Fin 0.01) (Fin 0.001) = Inr (Fin 9.5)"
    unfolding Theim_finite [OF pos] by simp
  then show ?thesis
    using Theim_example_value example_sqrt_bounds
    unfolding example_arg_def by simp
qed

text \<open>
  Claim C7, as it is written, gives \<open>9.6199\<close> for the value at \<open>r = 10\<close> to four decimal
  places. The value the function returns is further than \<open>0.00005\<close> from \<open>9.6199\<close>.
\<close>

theorem worked_example_is_not_9_6199:
  "Theim (Fin 10) (Fin 5) (Fin 9.5) (Fin 0.01) (Fin 0.001) =
       Inr (Fin (sqrt (0.01 / (pi * 0.001) * ln 2 + 9.5\<^sup>2)))
   \<and> \<not> \<bar>sqrt (0.01 / (pi * 0.001) * ln 2 + 9.5\<^sup>2) - 9.6199\<bar> \<le> 0.00005"
proof -
  have "sqrt example_arg < 9.61545"
    by (rule example_sqrt_bounds)
  then have "\<not> \<bar>sqrt example_arg - 9.6199\<bar> \<le> 0.00005"
    by simp
  then show ?thesis
    using Theim_example_value unfolding example_arg_def by simp
qed

end
